theory Spec2Isabelle
  imports Complex_Main "HOL-Library.Monad_Syntax"
begin

section \<open>JavaScript values and strings\<close>

text \<open>
  A request carries JSON. The handlers observe a JSON value only through its
  truthiness, \<^verbatim>\<open>typeof\<close>, comparison with \<^verbatim>\<open>undefined\<close>, its coercion to a string
  (by \<^verbatim>\<open>RegExp.prototype.test\<close>), \<^verbatim>\<open>Number.isInteger\<close> and the string methods
  \<^verbatim>\<open>trim\<close> and \<^verbatim>\<open>toLowerCase\<close>. An array or a plain object is therefore
  represented by \<open>JObj s\<close>, where \<open>s\<close> is what \<^verbatim>\<open>String(v)\<close> yields for it. A
  finite JSON number is a rational. A string is a list of code units below 256
  (the Latin-1 range), which \<^verbatim>\<open>toLowerCase\<close> maps into itself.
\<close>

datatype jsval =
    JUndefined
  | JNull
  | JBool bool
  | JNum rat
  | JStr string
  | JObj string

type_synonym jsobject = "string \<Rightarrow> jsval"

fun truthy :: "jsval \<Rightarrow> bool" where
  "truthy JUndefined = False"
| "truthy JNull = False"
| "truthy (JBool b) = b"
| "truthy (JNum r) = (r \<noteq> 0)"
| "truthy (JStr s) = (s \<noteq> [])"
| "truthy (JObj s) = True"

definition js_whitespace :: "char \<Rightarrow> bool" where
  "js_whitespace c = (of_char c \<in> {9, 10, 11, 12, 13, 32, 160 :: nat})"

definition trim :: "string \<Rightarrow> string" where
  "trim s = rev (dropWhile js_whitespace (rev (dropWhile js_whitespace s)))"

definition lower_char :: "char \<Rightarrow> char" where
  "lower_char c =
     (let n = of_char c :: nat
      in if (65 \<le> n \<and> n \<le> 90) \<or> (192 \<le> n \<and> n \<le> 222 \<and> n \<noteq> 215)
         then char_of (n + 32) else c)"

definition toLowerCase :: "string \<Rightarrow> string" where
  "toLowerCase s = map lower_char s"

text \<open>A method call on a value that is not a string throws a TypeError: \<open>None\<close>.\<close>

fun call_trim :: "jsval \<Rightarrow> string option" where
  "call_trim (JStr s) = Some (trim s)"
| "call_trim _ = None"

fun call_toLowerCase :: "jsval \<Rightarrow> string option" where
  "call_toLowerCase (JStr s) = Some (toLowerCase s)"
| "call_toLowerCase _ = None"

section \<open>Regular expressions\<close>

datatype rx =
    Never
  | Empty
  | Class "char \<Rightarrow> bool"
  | Or rx rx
  | Then rx rx
  | Many rx

fun accepts_empty :: "rx \<Rightarrow> bool" where
  "accepts_empty Never = False"
| "accepts_empty Empty = True"
| "accepts_empty (Class P) = False"
| "accepts_empty (Or a b) = (accepts_empty a \<or> accepts_empty b)"
| "accepts_empty (Then a b) = (accepts_empty a \<and> accepts_empty b)"
| "accepts_empty (Many a) = True"

fun after :: "char \<Rightarrow> rx \<Rightarrow> rx" where
  "after c Never = Never"
| "after c Empty = Never"
| "after c (Class P) = (if P c then Empty else Never)"
| "after c (Or a b) = Or (after c a) (after c b)"
| "after c (Then a b) =
     (if accepts_empty a then Or (Then (after c a) b) (after c b)
      else Then (after c a) b)"
| "after c (Many a) = Then (after c a) (Many a)"

fun residual :: "rx \<Rightarrow> string \<Rightarrow> rx" where
  "residual r [] = r"
| "residual r (c # cs) = residual (after c r) cs"

text \<open>\<^verbatim>\<open>/^r$/.test(s)\<close>: the whole of \<open>s\<close> matches \<open>r\<close>.\<close>

definition rx_test :: "rx \<Rightarrow> string \<Rightarrow> bool" where
  "rx_test r s = accepts_empty (residual r s)"

definition lit :: "char \<Rightarrow> rx" where
  "lit c = Class (\<lambda>x. x = c)"

definition some :: "rx \<Rightarrow> rx" where
  "some r = Then r (Many r)"

fun times :: "nat \<Rightarrow> rx \<Rightarrow> rx" where
  "times 0 r = Empty"
| "times (Suc n) r = Then r (times n r)"

section \<open>Validation functions\<close>

definition not_space_at :: "char \<Rightarrow> bool" where
  "not_space_at c = (\<not> js_whitespace c \<and> c \<noteq> CHR ''@'')"

definition emailRegex :: rx where
  "emailRegex =
     Then (some (Class not_space_at))
       (Then (lit CHR ''@'')
          (Then (some (Class not_space_at))
             (Then (lit CHR ''.'') (some (Class not_space_at)))))"

text \<open>
  \<^verbatim>\<open>emailRegex.test(email)\<close> coerces its argument to a string first. The decimal
  rendering of a number holds no \<open>@\<close>, so the pattern never matches a number.
\<close>

fun isValidEmail :: "jsval \<Rightarrow> bool" where
  "isValidEmail (JStr s) = rx_test emailRegex s"
| "isValidEmail (JObj s) = rx_test emailRegex s"
| "isValidEmail JUndefined = rx_test emailRegex ''undefined''"
| "isValidEmail JNull = rx_test emailRegex ''null''"
| "isValidEmail (JBool b) = rx_test emailRegex (if b then ''true'' else ''false'')"
| "isValidEmail (JNum r) = False"

fun isValidAge :: "jsval \<Rightarrow> bool" where
  "isValidAge (JNum r) = (of_int \<lfloor>r\<rfloor> = r \<and> r > 0 \<and> r < 150)"
| "isValidAge _ = False"

fun isValidName :: "jsval \<Rightarrow> bool" where
  "isValidName (JStr s) = (length (trim s) > 0 \<and> length s \<le> 100)"
| "isValidName _ = False"

datatype validation = Valid | Invalid string

definition validateUser :: "jsobject \<Rightarrow> bool \<Rightarrow> validation" where
  "validateUser user isUpdate =
     (if \<not> isUpdate \<and> \<not> truthy (user ''name'') then Invalid ''Name is required''
      else if \<not> isUpdate \<and> \<not> truthy (user ''email'') then Invalid ''Email is required''
      else if \<not> isUpdate \<and> \<not> truthy (user ''age'') then Invalid ''Age is required''
      else if user ''name'' \<noteq> JUndefined \<and> \<not> isValidName (user ''name'')
        then Invalid ''Name must be a non-empty string (max 100 chars)''
      else if user ''email'' \<noteq> JUndefined \<and> \<not> isValidEmail (user ''email'')
        then Invalid ''Invalid email format''
      else if user ''age'' \<noteq> JUndefined \<and> \<not> isValidAge (user ''age'')
        then Invalid ''Age must be a number between 1 and 149''
      else Valid)"

section \<open>Identifiers\<close>

text \<open>
  The route parameter is tested against
  \<^verbatim>\<open>/^[0-9a-f]{8}-[0-9a-f]{4}-[0-9a-f]{4}-[0-9a-f]{4}-[0-9a-f]{12}$/i\<close>. Under the
  \<^verbatim>\<open>i\<close> flag a character matches a class when their canonical (upper case) forms
  agree. The two Latin-1 letters whose upper case lies beyond code unit 255 are mapped to
  themselves here; like their true images they differ from every canonical member of the
  classes of this pattern.
\<close>

definition canonicalize :: "char \<Rightarrow> char" where
  "canonicalize c =
     (let n = of_char c :: nat
      in if (97 \<le> n \<and> n \<le> 122) \<or> (224 \<le> n \<and> n \<le> 254 \<and> n \<noteq> 247)
         then char_of (n - 32) else c)"

definition class_i :: "string \<Rightarrow> rx" where
  "class_i members = Class (\<lambda>c. canonicalize c \<in> set (map canonicalize members))"

definition hex_i :: rx where
  "hex_i = class_i ''0123456789abcdef''"

definition uuidRegex :: rx where
  "uuidRegex =
     Then (times 8 hex_i) (Then (class_i ''-'')
       (Then (times 4 hex_i) (Then (class_i ''-'')
         (Then (times 4 hex_i) (Then (class_i ''-'')
           (Then (times 4 hex_i) (Then (class_i ''-'') (times 12 hex_i))))))))"

text \<open>
  \<^verbatim>\<open>uuidv4()\<close> of the \<^verbatim>\<open>uuid\<close> package: sixteen random bytes, the version and
  variant bits forced, printed as lower-case hex in groups of 4, 2, 2, 2 and 6 bytes.
  The random source is an input: \<open>r i\<close> is its \<open>i\<close>-th byte (taken modulo 256).
\<close>

definition hex_digit :: "nat \<Rightarrow> char" where
  "hex_digit n = ''0123456789abcdef'' ! (n mod 16)"

definition byteToHex :: "nat \<Rightarrow> string" where
  "byteToHex b = [hex_digit (b div 16), hex_digit b]"

definition uuid_byte :: "(nat \<Rightarrow> nat) \<Rightarrow> nat \<Rightarrow> nat" where
  "uuid_byte r i =
     (if i = 6 then r 6 mod 16 + 64
      else if i = 8 then r 8 mod 64 + 128
      else r i mod 256)"

definition uuid_group :: "(nat \<Rightarrow> nat) \<Rightarrow> nat list \<Rightarrow> string" where
  "uuid_group r is = concat (map (\<lambda>i. byteToHex (uuid_byte r i)) is)"

definition uuidv4 :: "(nat \<Rightarrow> nat) \<Rightarrow> string" where
  "uuidv4 r =
     uuid_group r [0, 1, 2, 3] @ ''-'' @ uuid_group r [4, 5] @ ''-'' @
     uuid_group r [6, 7] @ ''-'' @ uuid_group r [8, 9] @ ''-'' @
     uuid_group r [10, 11, 12, 13, 14, 15]"

section \<open>The user schema\<close>

record user =
  id' :: string
  name :: string
  email :: string
  age :: rat
  createdAt :: nat
  updatedAt :: nat

text \<open>The setters of the schema (\<^verbatim>\<open>trim: true\<close>, \<^verbatim>\<open>lowercase: true\<close>) run on assignment.\<close>

definition set_name :: "string \<Rightarrow> user \<Rightarrow> user" where
  "set_name v u = u\<lparr>name := trim v\<rparr>"

definition set_email :: "string \<Rightarrow> user \<Rightarrow> user" where
  "set_email v u = u\<lparr>email := toLowerCase v\<rparr>"

text \<open>
  A value assigned to the \<^verbatim>\<open>Number\<close> path is cast; the handlers assign only what
  \<open>isValidAge\<close> has accepted, so a value that is not a number is a cast error here.
\<close>

fun set_age :: "jsval \<Rightarrow> user \<Rightarrow> user option" where
  "set_age (JNum r) u = Some (u\<lparr>age := r\<rparr>)"
| "set_age _ u = None"

definition not_space :: "char \<Rightarrow> bool" where
  "not_space c = (\<not> js_whitespace c)"

definition schemaEmailMatch :: rx where
  "schemaEmailMatch =
     Then (some (Class not_space))
       (Then (lit CHR ''@'')
          (Then (some (Class not_space))
             (Then (lit CHR ''.'') (some (Class not_space)))))"

text \<open>The validators of the schema, run by \<^verbatim>\<open>save()\<close>.\<close>

definition schema_valid :: "user \<Rightarrow> bool" where
  "schema_valid u =
     (id' u \<noteq> [] \<and>
      name u \<noteq> [] \<and> 1 \<le> length (name u) \<and> length (name u) \<le> 100 \<and>
      email u \<noteq> [] \<and> rx_test schemaEmailMatch (email u) \<and>
      1 \<le> age u \<and> age u \<le> 149)"

section \<open>The document store\<close>

text \<open>
  The collection is the list of its documents in storage order; a document found by a
  query is identified by its position until the request ends. Every call that reaches
  the database is recorded, so that a claim about storage access can be stated. The
  unique indexes on \<^verbatim>\<open>id\<close> and \<^verbatim>\<open>email\<close> are those the schema declares.
\<close>

datatype access =
    FindOne_id string
  | FindOne_email string
  | Find
  | Insert
  | Update nat
  | FindOneAndDelete string

record db =
  docs :: "user list"
  accessed :: "access list"

definition empty_db :: db where
  "empty_db = \<lparr>docs = [], accessed = []\<rparr>"

definition record_access :: "access \<Rightarrow> db \<Rightarrow> db" where
  "record_access a d = d\<lparr>accessed := accessed d @ [a]\<rparr>"

fun find_first :: "('a \<Rightarrow> bool) \<Rightarrow> 'a list \<Rightarrow> (nat \<times> 'a) option" where
  "find_first P [] = None"
| "find_first P (x # xs) =
     (if P x then Some (0, x)
      else map_option (\<lambda>(i, y). (Suc i, y)) (find_first P xs))"

definition findOne_id :: "string \<Rightarrow> db \<Rightarrow> (nat \<times> user) option \<times> db" where
  "findOne_id x d = (find_first (\<lambda>u. id' u = x) (docs d), record_access (FindOne_id x) d)"

definition findOne_email :: "string \<Rightarrow> db \<Rightarrow> (nat \<times> user) option \<times> db" where
  "findOne_email x d =
     (find_first (\<lambda>u. email u = x) (docs d), record_access (FindOne_email x) d)"

definition find_all :: "db \<Rightarrow> user list \<times> db" where
  "find_all d = (docs d, record_access Find d)"

text \<open>
  \<^verbatim>\<open>save()\<close> of a new document; \<open>False\<close> when it throws. The validators of the
  schema run first; the write is refused by a unique index when the id or the address is
  already stored.
\<close>

definition save_new :: "user \<Rightarrow> db \<Rightarrow> bool \<times> db" where
  "save_new u d =
     (if \<not> schema_valid u then (False, d)
      else if list_ex (\<lambda>x. id' x = id' u \<or> email x = email u) (docs d)
        then (False, record_access Insert d)
      else (True, record_access Insert (d\<lparr>docs := docs d @ [u]\<rparr>)))"

text \<open>
  \<^verbatim>\<open>save()\<close> of the document found at position \<open>i\<close>; \<open>False\<close> when it throws.
  The handlers never assign the id, so only a changed address can meet a unique index.
\<close>

definition save_existing :: "nat \<Rightarrow> user \<Rightarrow> db \<Rightarrow> bool \<times> db" where
  "save_existing i u d =
     (if \<not> schema_valid u then (False, d)
      else if email u \<noteq> email (docs d ! i) \<and> list_ex (\<lambda>x. email x = email u) (docs d)
        then (False, record_access (Update i) d)
      else (True, record_access (Update i) (d\<lparr>docs := (docs d)[i := u]\<rparr>)))"

definition findOneAndDelete_id :: "string \<Rightarrow> db \<Rightarrow> user option \<times> db" where
  "findOneAndDelete_id x d =
     (case find_first (\<lambda>u. id' u = x) (docs d) of
        None \<Rightarrow> (None, record_access (FindOneAndDelete x) d)
      | Some (i, u) \<Rightarrow>
          (Some u, record_access (FindOneAndDelete x)
             (d\<lparr>docs := take i (docs d) @ drop (Suc i) (docs d)\<rparr>)))"

section \<open>The response envelope\<close>

datatype payload = One user | Several "user list"

record response =
  success :: bool
  message :: "string option"
  error :: "string option"
  data :: "payload option"
  count :: "nat option"
  status :: nat

definition reply_error :: "nat \<Rightarrow> string \<Rightarrow> response" where
  "reply_error code msg =
     \<lparr>success = False, message = None, error = Some msg, data = None, count = None,
      status = code\<rparr>"

definition reply_ok :: "nat \<Rightarrow> string \<Rightarrow> payload option \<Rightarrow> nat option \<Rightarrow> response" where
  "reply_ok code msg d c =
     \<lparr>success = True, message = Some msg, error = None, data = d, count = c,
      status = code\<rparr>"

text \<open>The \<^verbatim>\<open>catch\<close> block of every handler.\<close>

definition internal_error :: response where
  "internal_error = reply_error 500 ''Internal server error''"

section \<open>The request handlers\<close>

text \<open>
  What a request reads from its surroundings: the clock and the random source. One
  reading of the clock serves a request, for the handler's \<^verbatim>\<open>new Date()\<close> and for
  the timestamps the schema sets on \<^verbatim>\<open>save()\<close>. The body that
  \<^verbatim>\<open>express.json()\<close> hands to a handler is an object; only its members
  \<^verbatim>\<open>name\<close>, \<^verbatim>\<open>email\<close> and \<^verbatim>\<open>age\<close> are read.
\<close>

record env =
  now :: nat
  rnds :: "nat \<Rightarrow> nat"

text \<open>\<^verbatim>\<open>app.post('/users')\<close>\<close>

definition post_users :: "env \<Rightarrow> jsobject \<Rightarrow> db \<Rightarrow> response \<times> db" where
  "post_users e body d =
     (case validateUser body False of
        Invalid msg \<Rightarrow> (reply_error 400 msg, d)
      | Valid \<Rightarrow>
          (case call_toLowerCase (body ''email'') of
             None \<Rightarrow> (internal_error, d)
           | Some lowered \<Rightarrow>
               (case findOne_email lowered d of
                  (Some existingUser, d1) \<Rightarrow> (reply_error 400 ''Email already exists'', d1)
                | (None, d1) \<Rightarrow>
                    (case do {
                            trimmed \<leftarrow> call_trim (body ''name'');
                            set_age (body ''age'')
                              (set_email lowered (set_name trimmed
                                 \<lparr>id' = uuidv4 (rnds e), name = [], email = [], age = 0,
                                  createdAt = now e, updatedAt = now e\<rparr>))
                          } of
                       None \<Rightarrow> (internal_error, d1)
                     | Some newUser \<Rightarrow>
                         (case save_new newUser d1 of
                            (False, d2) \<Rightarrow> (internal_error, d2)
                          | (True, d2) \<Rightarrow>
                              (reply_ok 201 ''User created successfully''
                                 (Some (One newUser)) None, d2))))))"

text \<open>\<^verbatim>\<open>app.get('/users')\<close>\<close>

definition get_users :: "db \<Rightarrow> response \<times> db" where
  "get_users d =
     (case find_all d of
        (allUsers, d1) \<Rightarrow>
          (reply_ok 200 ''Users retrieved successfully'' (Some (Several allUsers))
             (Some (length allUsers)), d1))"

text \<open>\<^verbatim>\<open>app.get('/users/:id')\<close>\<close>

definition get_users_id :: "string \<Rightarrow> db \<Rightarrow> response \<times> db" where
  "get_users_id ident d =
     (if \<not> rx_test uuidRegex ident then (reply_error 400 ''Invalid user ID format'', d)
      else
        (case findOne_id ident d of
           (None, d1) \<Rightarrow> (reply_error 404 ''User not found'', d1)
         | (Some (i, u), d1) \<Rightarrow>
             (reply_ok 200 ''User retrieved successfully'' (Some (One u)) None, d1)))"

text \<open>
  \<^verbatim>\<open>app.put('/users/:id')\<close>. The duplicate check comes first; \<open>Some\<close> is an early
  reply.
\<close>

definition put_check_email ::
  "jsval \<Rightarrow> user \<Rightarrow> db \<Rightarrow> response option \<times> db" where
  "put_check_email em u d =
     (if truthy em then
        (case call_toLowerCase em of
           None \<Rightarrow> (Some internal_error, d)
         | Some lowered \<Rightarrow>
             if lowered \<noteq> email u then
               (case findOne_email lowered d of
                  (Some existingUser, d1) \<Rightarrow>
                    (Some (reply_error 400 ''Email already exists''), d1)
                | (None, d1) \<Rightarrow> (None, d1))
             else (None, d))
      else (None, d))"

definition put_assign :: "env \<Rightarrow> jsobject \<Rightarrow> user \<Rightarrow> user option" where
  "put_assign e body u =
     do {
       u1 \<leftarrow> (if truthy (body ''name'')
              then map_option (\<lambda>t. set_name t u) (call_trim (body ''name''))
              else Some u);
       u2 \<leftarrow> (if truthy (body ''email'')
              then map_option (\<lambda>l. set_email l u1) (call_toLowerCase (body ''email''))
              else Some u1);
       u3 \<leftarrow> (if truthy (body ''age'') then set_age (body ''age'') u2 else Some u2);
       Some (u3\<lparr>updatedAt := now e\<rparr>)
     }"

definition put_users_id :: "env \<Rightarrow> string \<Rightarrow> jsobject \<Rightarrow> db \<Rightarrow> response \<times> db" where
  "put_users_id e ident body d =
     (if \<not> rx_test uuidRegex ident then (reply_error 400 ''Invalid user ID format'', d)
      else
        (case findOne_id ident d of
           (None, d1) \<Rightarrow> (reply_error 404 ''User not found'', d1)
         | (Some (i, u), d1) \<Rightarrow>
             (case validateUser body True of
                Invalid msg \<Rightarrow> (reply_error 400 msg, d1)
              | Valid \<Rightarrow>
                  (case put_check_email (body ''email'') u d1 of
                     (Some reply, d2) \<Rightarrow> (reply, d2)
                   | (None, d2) \<Rightarrow>
                       (case put_assign e body u of
                          None \<Rightarrow> (internal_error, d2)
                        | Some u' \<Rightarrow>
                            (case save_existing i u' d2 of
                               (False, d3) \<Rightarrow> (internal_error, d3)
                             | (True, d3) \<Rightarrow>
                                 (reply_ok 200 ''User updated successfully''
                                    (Some (One u')) None, d3)))))))"

text \<open>
  \<^verbatim>\<open>app.patch('/users/:id')\<close>. The name is assigned to the in-memory document
  before the duplicate check of the e-mail address; nothing is written before
  \<^verbatim>\<open>save()\<close>.
\<close>

definition patch_email ::
  "jsval \<Rightarrow> user \<Rightarrow> db \<Rightarrow> (response + user) \<times> db" where
  "patch_email em u d =
     (if em \<noteq> JUndefined then
        (case call_toLowerCase em of
           None \<Rightarrow> (Inl internal_error, d)
         | Some lowered \<Rightarrow>
             if lowered \<noteq> email u then
               (case findOne_email lowered d of
                  (Some existingUser, d1) \<Rightarrow>
                    (Inl (reply_error 400 ''Email already exists''), d1)
                | (None, d1) \<Rightarrow> (Inr (set_email lowered u), d1))
             else (Inr (set_email lowered u), d))
      else (Inr u, d))"

definition patch_users_id :: "env \<Rightarrow> string \<Rightarrow> jsobject \<Rightarrow> db \<Rightarrow> response \<times> db" where
  "patch_users_id e ident updates d =
     (if \<not> rx_test uuidRegex ident then (reply_error 400 ''Invalid user ID format'', d)
      else
        (case findOne_id ident d of
           (None, d1) \<Rightarrow> (reply_error 404 ''User not found'', d1)
         | (Some (i, u), d1) \<Rightarrow>
             (case validateUser updates True of
                Invalid msg \<Rightarrow> (reply_error 400 msg, d1)
              | Valid \<Rightarrow>
                  (case (if updates ''name'' \<noteq> JUndefined
                         then map_option (\<lambda>t. set_name t u) (call_trim (updates ''name''))
                         else Some u) of
                     None \<Rightarrow> (internal_error, d1)
                   | Some u1 \<Rightarrow>
                       (case patch_email (updates ''email'') u1 d1 of
                          (Inl reply, d2) \<Rightarrow> (reply, d2)
                        | (Inr u2, d2) \<Rightarrow>
                            (case (if updates ''age'' \<noteq> JUndefined
                                   then set_age (updates ''age'') u2 else Some u2) of
                               None \<Rightarrow> (internal_error, d2)
                             | Some u3 \<Rightarrow>
                                 (case save_existing i (u3\<lparr>updatedAt := now e\<rparr>) d2 of
                                    (False, d3) \<Rightarrow> (internal_error, d3)
                                  | (True, d3) \<Rightarrow>
                                      (reply_ok 200 ''User updated successfully''
                                         (Some (One (u3\<lparr>updatedAt := now e\<rparr>))) None,
                                       d3))))))))"

text \<open>\<^verbatim>\<open>app.delete('/users/:id')\<close>\<close>

definition delete_users_id :: "string \<Rightarrow> db \<Rightarrow> response \<times> db" where
  "delete_users_id ident d =
     (if \<not> rx_test uuidRegex ident then (reply_error 400 ''Invalid user ID format'', d)
      else
        (case findOneAndDelete_id ident d of
           (None, d1) \<Rightarrow> (reply_error 404 ''User not found'', d1)
         | (Some u, d1) \<Rightarrow> (reply_ok 200 ''User deleted successfully'' None None, d1)))"

section \<open>Sequences of requests\<close>

datatype request =
    Create jsobject
  | ListAll
  | GetById string
  | ReplaceById string jsobject
  | PatchById string jsobject
  | DeleteById string

fun handle :: "env \<Rightarrow> request \<Rightarrow> db \<Rightarrow> response \<times> db" where
  "handle e (Create body) d = post_users e body d"
| "handle e ListAll d = get_users d"
| "handle e (GetById ident) d = get_users_id ident d"
| "handle e (ReplaceById ident body) d = put_users_id e ident body d"
| "handle e (PatchById ident body) d = patch_users_id e ident body d"
| "handle e (DeleteById ident) d = delete_users_id ident d"

fun run :: "(env \<times> request) list \<Rightarrow> db \<Rightarrow> db" where
  "run [] d = d"
| "run ((e, r) # rest) d = run rest (snd (handle e r d))"

text \<open>A JSON object given by its members; a missing member reads as \<^verbatim>\<open>undefined\<close>.\<close>

fun object :: "(string \<times> jsval) list \<Rightarrow> jsobject" where
  "object [] = (\<lambda>k. JUndefined)"
| "object ((k, v) # rest) = (object rest)(k := v)"

section \<open>Properties named by the specification\<close>

text \<open>A hex digit in either case, as the specification words the identifier layout.\<close>

definition hex_char :: "char \<Rightarrow> bool" where
  "hex_char c = (c \<in> set ''0123456789abcdefABCDEF'')"

text \<open>
  Eight hex digits, dash, four hex, dash, four hex, dash, four hex, dash, twelve hex.
\<close>

definition grouped_hex_layout :: "string \<Rightarrow> bool" where
  "grouped_hex_layout s =
     (\<exists>a b c d e. s = a @ ''-'' @ b @ ''-'' @ c @ ''-'' @ d @ ''-'' @ e \<and>
        length a = 8 \<and> length b = 4 \<and> length c = 4 \<and> length d = 4 \<and> length e = 12 \<and>
        list_all hex_char a \<and> list_all hex_char b \<and> list_all hex_char c \<and>
        list_all hex_char d \<and> list_all hex_char e)"

text \<open>
  One or more admissible characters, then \<open>@\<close>, then one or more admissible
  characters, then a dot, then one or more admissible characters.
\<close>

definition email_shape :: "(char \<Rightarrow> bool) \<Rightarrow> string \<Rightarrow> bool" where
  "email_shape ok s =
     (\<exists>a b c. s = a @ ''@'' @ b @ ''.'' @ c \<and> a \<noteq> [] \<and> b \<noteq> [] \<and> c \<noteq> [] \<and>
        list_all ok a \<and> list_all ok b \<and> list_all ok c)"

text \<open>
  An update is fully applied to \<open>u\<close>, giving \<open>u'\<close>: every supplied field (one that is
  not \<^verbatim>\<open>undefined\<close>) holds its trimmed, lower-cased or given value, every other field
  is as before, and \<^verbatim>\<open>updatedAt\<close> is the time of the request.
\<close>

definition all_applied :: "env \<Rightarrow> jsobject \<Rightarrow> user \<Rightarrow> user \<Rightarrow> bool" where
  "all_applied e body u u' =
     ((if body ''name'' = JUndefined then name u' = name u
       else call_trim (body ''name'') = Some (name u')) \<and>
      (if body ''email'' = JUndefined then email u' = email u
       else call_toLowerCase (body ''email'') = Some (email u')) \<and>
      (if body ''age'' = JUndefined then age u' = age u
       else body ''age'' = JNum (age u')) \<and>
      updatedAt u' = now e \<and> id' u' = id' u \<and> createdAt u' = createdAt u)"

text \<open>
  What holds of every stored document, and of the collection, after any sequence of
  requests.
\<close>

definition stored_ok :: "user \<Rightarrow> bool" where
  "stored_ok u =
     (toLowerCase (email u) = email u \<and> schema_valid u \<and> rx_test uuidRegex (id' u))"

definition store_inv :: "db \<Rightarrow> bool" where
  "store_inv d =
     (distinct (map id' (docs d)) \<and> distinct (map email (docs d)) \<and>
      list_all stored_ok (docs d))"

section \<open>Auxiliary definitions\<close>

text \<open>The language of a regular expression, against which the matcher is justified.\<close>

inductive_set star :: "string set \<Rightarrow> string set" for L :: "string set" where
  star_nil: "[] \<in> star L"
| star_app: "u \<in> L \<Longrightarrow> v \<in> star L \<Longrightarrow> u @ v \<in> star L"

definition conc :: "string set \<Rightarrow> string set \<Rightarrow> string set" where
  "conc A B = {w. \<exists>u v. w = u @ v \<and> u \<in> A \<and> v \<in> B}"

fun lang :: "rx \<Rightarrow> string set" where
  "lang Never = {}"
| "lang Empty = {[]}"
| "lang (Class P) = {w. \<exists>c. w = [c] \<and> P c}"
| "lang (Or a b) = lang a \<union> lang b"
| "lang (Then a b) = conc (lang a) (lang b)"
| "lang (Many a) = star (lang a)"

text \<open>The part of the two update handlers that follows a successful validation.\<close>

definition put_tail :: "env \<Rightarrow> nat \<Rightarrow> user \<Rightarrow> jsobject \<Rightarrow> db \<Rightarrow> response \<times> db" where
  "put_tail e i u body d1 =
     (case put_check_email (body ''email'') u d1 of
        (Some reply, d2) \<Rightarrow> (reply, d2)
      | (None, d2) \<Rightarrow>
          (case put_assign e body u of
             None \<Rightarrow> (internal_error, d2)
           | Some u' \<Rightarrow>
               (case save_existing i u' d2 of
                  (False, d3) \<Rightarrow> (internal_error, d3)
                | (True, d3) \<Rightarrow>
                    (reply_ok 200 ''User updated successfully'' (Some (One u')) None, d3))))"

definition patch_tail :: "env \<Rightarrow> nat \<Rightarrow> user \<Rightarrow> jsobject \<Rightarrow> db \<Rightarrow> response \<times> db" where
  "patch_tail e i u updates d1 =
     (case (if updates ''name'' \<noteq> JUndefined
            then map_option (\<lambda>t. set_name t u) (call_trim (updates ''name''))
            else Some u) of
        None \<Rightarrow> (internal_error, d1)
      | Some u1 \<Rightarrow>
          (case patch_email (updates ''email'') u1 d1 of
             (Inl reply, d2) \<Rightarrow> (reply, d2)
           | (Inr u2, d2) \<Rightarrow>
               (case (if updates ''age'' \<noteq> JUndefined
                      then set_age (updates ''age'') u2 else Some u2) of
                  None \<Rightarrow> (internal_error, d2)
                | Some u3 \<Rightarrow>
                    (case save_existing i (u3\<lparr>updatedAt := now e\<rparr>) d2 of
                       (False, d3) \<Rightarrow> (internal_error, d3)
                     | (True, d3) \<Rightarrow>
                         (reply_ok 200 ''User updated successfully''
                            (Some (One (u3\<lparr>updatedAt := now e\<rparr>))) None,
                          d3)))))"

text \<open>The document that \<^verbatim>\<open>new User({...})\<close> builds.\<close>

definition new_user :: "env \<Rightarrow> jsobject \<Rightarrow> string \<Rightarrow> user option" where
  "new_user e body lowered =
     do {
       trimmed \<leftarrow> call_trim (body ''name'');
       set_age (body ''age'')
         (set_email lowered (set_name trimmed
            \<lparr>id' = uuidv4 (rnds e), name = [], email = [], age = 0,
             createdAt = now e, updatedAt = now e\<rparr>))
     }"

section \<open>Example requests\<close>

definition env0 :: env where
  "env0 = \<lparr>now = 5, rnds = (\<lambda>i. i * 37)\<rparr>"

definition env1 :: env where
  "env1 = \<lparr>now = 9, rnds = (\<lambda>i. i * 11 + 3)\<rparr>"

definition john :: jsobject where
  "john = object [(''name'', JStr ''John Doe''), (''email'', JStr ''John@Example.com''),
     (''age'', JNum 25)]"

definition john_again :: jsobject where
  "john_again = object [(''name'', JStr ''Johnny''), (''email'', JStr ''JOHN@EXAMPLE.COM''),
     (''age'', JNum 31)]"

definition john_stored :: user where
  "john_stored = \<lparr>id' = ''00254a6f-94b9-4e03-a84d-7297bce1062b'', name = ''John Doe'',
     email = ''john@example.com'', age = 25, createdAt = 5, updatedAt = 5\<rparr>"

definition jane :: jsobject where
  "jane = object [(''name'', JStr ''  Jane Roe ''), (''email'', JStr ''Jane@Example.com''),
     (''age'', JNum 40)]"

definition jane_stored :: user where
  "jane_stored = \<lparr>id' = ''030e1924-2f3a-4550-9b66-717c87929da8'', name = ''Jane Roe'',
     email = ''jane@example.com'', age = 40, createdAt = 9, updatedAt = 9\<rparr>"

definition two_users :: db where
  "two_users = \<lparr>docs = [john_stored, jane_stored],
     accessed = [FindOne_email ''john@example.com'', Insert,
                 FindOne_email ''jane@example.com'', Insert]\<rparr>"

definition take_janes_email :: jsobject where
  "take_janes_email =
     object [(''name'', JStr ''Johnny''), (''email'', JStr ''JANE@example.com'')]"

definition keep_own_email :: jsobject where
  "keep_own_email =
     object [(''name'', JStr ''Johnny''), (''email'', JStr ''JOHN@example.com'')]"

section \<open>The matcher decides the language\<close>

lemma concI: "u \<in> A \<Longrightarrow> v \<in> B \<Longrightarrow> u @ v \<in> conc A B"
  unfolding conc_def by blast

lemma concE: "w \<in> conc A B \<Longrightarrow> (\<And>u v. w = u @ v \<Longrightarrow> u \<in> A \<Longrightarrow> v \<in> B \<Longrightarrow> R) \<Longrightarrow> R"
  unfolding conc_def by blast

lemma nil_in_conc: "[] \<in> conc A B \<longleftrightarrow> [] \<in> A \<and> [] \<in> B"
  unfolding conc_def by simp

lemma accepts_empty_lang: "accepts_empty r \<longleftrightarrow> [] \<in> lang r"
  by (induction r) (simp_all add: nil_in_conc star.star_nil)

lemma cons_in_conc:
  "c # w \<in> conc A B \<longleftrightarrow> w \<in> conc {u. c # u \<in> A} B \<or> ([] \<in> A \<and> c # w \<in> B)"
proof
  assume "c # w \<in> conc A B"
  then obtain u v where uv: "c # w = u @ v" "u \<in> A" "v \<in> B" by (rule concE)
  show "w \<in> conc {u. c # u \<in> A} B \<or> ([] \<in> A \<and> c # w \<in> B)"
  proof (cases u)
    case Nil
    with uv show ?thesis by simp
  next
    case (Cons x u')
    with uv have "w = u' @ v" and "u' \<in> {u. c # u \<in> A}" by simp_all
    with uv(3) have "w \<in> conc {u. c # u \<in> A} B" by (simp add: concI)
    then show ?thesis ..
  qed
next
  assume "w \<in> conc {u. c # u \<in> A} B \<or> ([] \<in> A \<and> c # w \<in> B)"
  then show "c # w \<in> conc A B"
  proof
    assume "w \<in> conc {u. c # u \<in> A} B"
    then obtain u v where "w = u @ v" "c # u \<in> A" "v \<in> B" by (rule concE) simp
    then have "(c # u) @ v \<in> conc A B" by (intro concI)
    with \<open>w = u @ v\<close> show ?thesis by simp
  next
    assume "[] \<in> A \<and> c # w \<in> B"
    then have "[] @ (c # w) \<in> conc A B" by (intro concI) simp_all
    then show ?thesis by simp
  qed
qed

lemma star_cons_split:
  assumes "w \<in> star L" and "w = c # t"
  shows "t \<in> conc {u. c # u \<in> L} (star L)"
  using assms
proof (induction arbitrary: t rule: star.induct)
  case star_nil
  then show ?case by simp
next
  case (star_app u v)
  show ?case
  proof (cases u)
    case Nil
    with star_app show ?thesis by simp
  next
    case (Cons a u')
    with star_app.prems have "a = c" and "t = u' @ v" by simp_all
    with Cons star_app.hyps(1,2) show ?thesis by (simp add: concI)
  qed
qed

lemma cons_in_star: "c # w \<in> star L \<longleftrightarrow> w \<in> conc {u. c # u \<in> L} (star L)"
proof
  assume "c # w \<in> star L"
  then show "w \<in> conc {u. c # u \<in> L} (star L)" by (rule star_cons_split) simp
next
  assume "w \<in> conc {u. c # u \<in> L} (star L)"
  then obtain u v where "w = u @ v" "c # u \<in> L" "v \<in> star L" by (rule concE) simp
  then have "(c # u) @ v \<in> star L" by (intro star.star_app)
  with \<open>w = u @ v\<close> show "c # w \<in> star L" by simp
qed

lemma lang_after: "lang (after c r) = {w. c # w \<in> lang r}"
proof (induction r)
  case Never
  show ?case by simp
next
  case Empty
  show ?case by simp
next
  case (Class P)
  show ?case by simp
next
  case (Or a b)
  have a: "lang (after c a) = {u. c # u \<in> lang a}" by (rule Or.IH(1))
  have b: "lang (after c b) = {u. c # u \<in> lang b}" by (rule Or.IH(2))
  show ?case unfolding set_eq_iff by (simp add: a b)
next
  case (Then a b)
  have a: "lang (after c a) = {u. c # u \<in> lang a}" by (rule Then.IH(1))
  have b: "lang (after c b) = {u. c # u \<in> lang b}" by (rule Then.IH(2))
  show ?case unfolding set_eq_iff by (simp add: cons_in_conc accepts_empty_lang a b)
next
  case (Many a)
  have a: "lang (after c a) = {u. c # u \<in> lang a}" by (rule Many.IH)
  show ?case unfolding set_eq_iff by (simp add: cons_in_star a)
qed

lemma residual_lang: "accepts_empty (residual r s) \<longleftrightarrow> s \<in> lang r"
  by (induction s arbitrary: r) (simp_all add: accepts_empty_lang lang_after)

lemma rx_test_lang: "rx_test r s \<longleftrightarrow> s \<in> lang r"
  by (simp add: rx_test_def residual_lang)

lemma star_class: "star {w. \<exists>c. w = [c] \<and> P c} = {w. list_all P w}"
proof (intro set_eqI iffI)
  fix w assume "w \<in> star {w. \<exists>c. w = [c] \<and> P c}"
  then have "list_all P w"
    by (induction rule: star.induct) auto
  then show "w \<in> {w. list_all P w}" by simp
next
  fix w assume "w \<in> {w. list_all P w}"
  then have "list_all P w" by simp
  then show "w \<in> star {w. \<exists>c. w = [c] \<and> P c}"
  proof (induction w)
    case Nil
    show ?case by (rule star.star_nil)
  next
    case (Cons c w)
    then have "[c] \<in> {w. \<exists>c. w = [c] \<and> P c}" "w \<in> star {w. \<exists>c. w = [c] \<and> P c}"
      by simp_all
    then have "[c] @ w \<in> star {w. \<exists>c. w = [c] \<and> P c}" by (rule star.star_app)
    then show ?case by simp
  qed
qed

lemma in_conc_class:
  "w \<in> conc {w. \<exists>c. w = [c] \<and> P c} B \<longleftrightarrow> (\<exists>c t. w = c # t \<and> P c \<and> t \<in> B)"
proof
  assume "w \<in> conc {w. \<exists>c. w = [c] \<and> P c} B"
  then obtain u v where "w = u @ v" "u \<in> {w. \<exists>c. w = [c] \<and> P c}" "v \<in> B" by (rule concE)
  then show "\<exists>c t. w = c # t \<and> P c \<and> t \<in> B" by auto
next
  assume "\<exists>c t. w = c # t \<and> P c \<and> t \<in> B"
  then obtain c t where ct: "w = c # t" "P c" "t \<in> B" by blast
  then have "[c] @ t \<in> conc {w. \<exists>c. w = [c] \<and> P c} B" by (intro concI) simp_all
  with ct(1) show "w \<in> conc {w. \<exists>c. w = [c] \<and> P c} B" by simp
qed

lemma lang_some_class: "w \<in> lang (some (Class P)) \<longleftrightarrow> w \<noteq> [] \<and> list_all P w"
  unfolding some_def by (cases w) (auto simp: star_class in_conc_class)

lemma lang_times_class: "w \<in> lang (times n (Class P)) \<longleftrightarrow> length w = n \<and> list_all P w"
proof (induction n arbitrary: w)
  case 0
  show ?case by auto
next
  case (Suc n)
  show ?case by (cases w) (auto simp: in_conc_class Suc)
qed

lemma lang_lit: "w \<in> lang (lit c) \<longleftrightarrow> w = [c]"
  by (auto simp: lit_def)

section \<open>Characters, identifiers and addresses\<close>

lemma of_char_canonicalize:
  "of_char (canonicalize c) = (let n = of_char c :: nat in
      if (97 \<le> n \<and> n \<le> 122) \<or> (224 \<le> n \<and> n \<le> 254 \<and> n \<noteq> 247) then n - 32 else n)"
proof -
  have "(of_char c :: nat) < 256" by simp
  then show ?thesis
    by (auto simp: canonicalize_def Let_def)
qed

lemma canon_hex_members:
  "set (map canonicalize ''0123456789abcdef'') = set ''0123456789ABCDEF''"
  by code_simp

lemma canon_dash: "map canonicalize ''-'' = ''-''"
  by code_simp

lemma char_eq_of_char: "(c = d) \<longleftrightarrow> (of_char c :: nat) = of_char d"
  by simp

lemma upper_hex_code:
  "x \<in> set ''0123456789ABCDEF'' \<longleftrightarrow>
     (48 \<le> (of_char x :: nat) \<and> (of_char x :: nat) \<le> 57) \<or>
     (65 \<le> (of_char x :: nat) \<and> (of_char x :: nat) \<le> 70)"
  by (simp add: char_eq_of_char[of x] del: of_char_eq_iff) arith

lemma hex_char_code:
  "hex_char x \<longleftrightarrow>
     (48 \<le> (of_char x :: nat) \<and> (of_char x :: nat) \<le> 57) \<or>
     (65 \<le> (of_char x :: nat) \<and> (of_char x :: nat) \<le> 70) \<or>
     (97 \<le> (of_char x :: nat) \<and> (of_char x :: nat) \<le> 102)"
  unfolding hex_char_def
  by (simp add: char_eq_of_char[of x] del: of_char_eq_iff) arith

lemma hex_i_char:
  "canonicalize c \<in> set (map canonicalize ''0123456789abcdef'') \<longleftrightarrow> hex_char c"
  unfolding canon_hex_members upper_hex_code hex_char_code of_char_canonicalize Let_def
  by auto

lemma dash_i_char:
  "canonicalize c \<in> set (map canonicalize ''-'') \<longleftrightarrow> c = CHR ''-''"
proof -
  have "canonicalize c = CHR ''-'' \<longleftrightarrow> (of_char (canonicalize c) :: nat) = 45"
    by (simp add: char_eq_of_char[of "canonicalize c"] del: of_char_eq_iff)
  also have "\<dots> \<longleftrightarrow> (of_char c :: nat) = 45"
    unfolding of_char_canonicalize Let_def by auto
  also have "\<dots> \<longleftrightarrow> c = CHR ''-''"
    by (simp add: char_eq_of_char[of c] del: of_char_eq_iff)
  finally show ?thesis unfolding canon_dash by simp
qed

lemma lower_char_idem: "lower_char (lower_char c) = lower_char c"
proof -
  have "(of_char c :: nat) < 256" by simp
  then show ?thesis
    by (auto simp: lower_char_def Let_def)
qed

lemma toLowerCase_idem: "toLowerCase (toLowerCase s) = toLowerCase s"
  by (simp add: toLowerCase_def lower_char_idem)

lemma lang_hex_i: "w \<in> lang (times n hex_i) \<longleftrightarrow> length w = n \<and> list_all hex_char w"
  unfolding hex_i_def class_i_def lang_times_class hex_i_char
  by (simp add: list_all_iff)

lemma lang_dash_i: "w \<in> lang (class_i ''-'') \<longleftrightarrow> w = ''-''"
  unfolding class_i_def lang.simps dash_i_char by auto

lemma uuidRegex_layout: "rx_test uuidRegex s \<longleftrightarrow> grouped_hex_layout s"
proof
  assume "rx_test uuidRegex s"
  then have "s \<in> lang uuidRegex" by (simp add: rx_test_lang)
  then obtain a r1 where 1: "s = a @ r1" "a \<in> lang (times 8 hex_i)"
      "r1 \<in> lang (Then (class_i ''-'')
       (Then (times 4 hex_i) (Then (class_i ''-'')
         (Then (times 4 hex_i) (Then (class_i ''-'')
           (Then (times 4 hex_i) (Then (class_i ''-'') (times 12 hex_i))))))))"
    unfolding uuidRegex_def lang.simps(5) by (rule concE)
  from 1(3) obtain x1 r2 where 2: "r1 = x1 @ r2" "x1 \<in> lang (class_i ''-'')"
      "r2 \<in> lang (Then (times 4 hex_i) (Then (class_i ''-'')
         (Then (times 4 hex_i) (Then (class_i ''-'')
           (Then (times 4 hex_i) (Then (class_i ''-'') (times 12 hex_i)))))))"
    unfolding lang.simps(5) by (rule concE)
  from 2(3) obtain b r3 where 3: "r2 = b @ r3" "b \<in> lang (times 4 hex_i)"
      "r3 \<in> lang (Then (class_i ''-'')
         (Then (times 4 hex_i) (Then (class_i ''-'')
           (Then (times 4 hex_i) (Then (class_i ''-'') (times 12 hex_i))))))"
    unfolding lang.simps(5) by (rule concE)
  from 3(3) obtain x2 r4 where 4: "r3 = x2 @ r4" "x2 \<in> lang (class_i ''-'')"
      "r4 \<in> lang (Then (times 4 hex_i) (Then (class_i ''-'')
           (Then (times 4 hex_i) (Then (class_i ''-'') (times 12 hex_i)))))"
    unfolding lang.simps(5) by (rule concE)
  from 4(3) obtain c r5 where 5: "r4 = c @ r5" "c \<in> lang (times 4 hex_i)"
      "r5 \<in> lang (Then (class_i ''-'')
           (Then (times 4 hex_i) (Then (class_i ''-'') (times 12 hex_i))))"
    unfolding lang.simps(5) by (rule concE)
  from 5(3) obtain x3 r6 where 6: "r5 = x3 @ r6" "x3 \<in> lang (class_i ''-'')"
      "r6 \<in> lang (Then (times 4 hex_i) (Then (class_i ''-'') (times 12 hex_i)))"
    unfolding lang.simps(5) by (rule concE)
  from 6(3) obtain d r7 where 7: "r6 = d @ r7" "d \<in> lang (times 4 hex_i)"
      "r7 \<in> lang (Then (class_i ''-'') (times 12 hex_i))"
    unfolding lang.simps(5) by (rule concE)
  from 7(3) obtain x4 e where 8: "r7 = x4 @ e" "x4 \<in> lang (class_i ''-'')"
      "e \<in> lang (times 12 hex_i)"
    unfolding lang.simps(5) by (rule concE)
  have "s = a @ ''-'' @ b @ ''-'' @ c @ ''-'' @ d @ ''-'' @ e"
    using 1(1) 2(1,2) 3(1) 4(1,2) 5(1) 6(1,2) 7(1) 8(1,2) by (simp add: lang_dash_i)
  moreover have "length a = 8 \<and> length b = 4 \<and> length c = 4 \<and> length d = 4 \<and> length e = 12 \<and>
        list_all hex_char a \<and> list_all hex_char b \<and> list_all hex_char c \<and>
        list_all hex_char d \<and> list_all hex_char e"
    using 1(2) 3(2) 5(2) 7(2) 8(3) by (simp add: lang_hex_i)
  ultimately show "grouped_hex_layout s" unfolding grouped_hex_layout_def by blast
next
  assume "grouped_hex_layout s"
  then obtain a b c d e where s: "s = a @ ''-'' @ b @ ''-'' @ c @ ''-'' @ d @ ''-'' @ e"
    and l: "length a = 8" "length b = 4" "length c = 4" "length d = 4" "length e = 12"
    and h: "list_all hex_char a" "list_all hex_char b" "list_all hex_char c"
        "list_all hex_char d" "list_all hex_char e"
    unfolding grouped_hex_layout_def by blast
  have a: "a \<in> lang (times 8 hex_i)" using l h by (simp add: lang_hex_i)
  have b: "b \<in> lang (times 4 hex_i)" using l h by (simp add: lang_hex_i)
  have c: "c \<in> lang (times 4 hex_i)" using l h by (simp add: lang_hex_i)
  have d: "d \<in> lang (times 4 hex_i)" using l h by (simp add: lang_hex_i)
  have e: "e \<in> lang (times 12 hex_i)" using l h by (simp add: lang_hex_i)
  have dash: "''-'' \<in> lang (class_i ''-'')" by (simp add: lang_dash_i)
  have "a @ ''-'' @ b @ ''-'' @ c @ ''-'' @ d @ ''-'' @ e \<in> lang uuidRegex"
    unfolding uuidRegex_def lang.simps(5)
    by (intro concI a b c d e dash)
  with s show "rx_test uuidRegex s" by (simp add: rx_test_lang)
qed

lemma hex_digits_all: "list_all (\<lambda>k. hex_char (''0123456789abcdef'' ! k)) [0..<16]"
  by code_simp

lemma hex_digit_hex_char: "hex_char (hex_digit n)"
proof -
  have "n mod 16 \<in> set [0..<16]" by simp
  with hex_digits_all show ?thesis
    unfolding hex_digit_def list_all_iff by blast
qed

lemma uuid_group_props:
  "length (uuid_group r is) = 2 * length is \<and> list_all hex_char (uuid_group r is)"
  unfolding uuid_group_def by (induction "is") (simp_all add: byteToHex_def hex_digit_hex_char)

lemma uuidv4_layout: "grouped_hex_layout (uuidv4 r)"
  unfolding grouped_hex_layout_def uuidv4_def
  apply (rule exI[of _ "uuid_group r [0, 1, 2, 3]"])
  apply (rule exI[of _ "uuid_group r [4, 5]"])
  apply (rule exI[of _ "uuid_group r [6, 7]"])
  apply (rule exI[of _ "uuid_group r [8, 9]"])
  apply (rule exI[of _ "uuid_group r [10, 11, 12, 13, 14, 15]"])
  apply (simp only: uuid_group_props)
  apply simp
  done

lemma uuidv4_matches: "rx_test uuidRegex (uuidv4 r)"
  by (simp add: uuidRegex_layout uuidv4_layout)

lemma email_rx_shape:
  "rx_test (Then (some (Class P)) (Then (lit CHR ''@'') (Then (some (Class P))
       (Then (lit CHR ''.'') (some (Class P)))))) s \<longleftrightarrow> email_shape P s"
proof
  assume "rx_test (Then (some (Class P)) (Then (lit CHR ''@'') (Then (some (Class P))
       (Then (lit CHR ''.'') (some (Class P)))))) s"
  then have "s \<in> lang (Then (some (Class P)) (Then (lit CHR ''@'') (Then (some (Class P))
       (Then (lit CHR ''.'') (some (Class P))))))" by (simp add: rx_test_lang)
  then obtain a r1 where 1: "s = a @ r1" "a \<in> lang (some (Class P))"
      "r1 \<in> lang (Then (lit CHR ''@'') (Then (some (Class P))
             (Then (lit CHR ''.'') (some (Class P)))))"
    unfolding lang.simps(5) by (rule concE)
  from 1(3) obtain x r2 where 2: "r1 = x @ r2" "x \<in> lang (lit CHR ''@'')"
      "r2 \<in> lang (Then (some (Class P)) (Then (lit CHR ''.'') (some (Class P))))"
    unfolding lang.simps(5) by (rule concE)
  from 2(3) obtain b r3 where 3: "r2 = b @ r3" "b \<in> lang (some (Class P))"
      "r3 \<in> lang (Then (lit CHR ''.'') (some (Class P)))"
    unfolding lang.simps(5) by (rule concE)
  from 3(3) obtain y c where 4: "r3 = y @ c" "y \<in> lang (lit CHR ''.'')"
      "c \<in> lang (some (Class P))"
    unfolding lang.simps(5) by (rule concE)
  from 1 2 3 4 have "s = a @ ''@'' @ b @ ''.'' @ c" by (simp add: lang_lit)
  moreover from 1(2) 3(2) 4(3) have "a \<noteq> [] \<and> b \<noteq> [] \<and> c \<noteq> [] \<and>
        list_all P a \<and> list_all P b \<and> list_all P c"
    by (simp add: lang_some_class)
  ultimately show "email_shape P s" unfolding email_shape_def by blast
next
  assume "email_shape P s"
  then obtain a b c where s: "s = a @ ''@'' @ b @ ''.'' @ c" and
    abc: "a \<noteq> []" "b \<noteq> []" "c \<noteq> []" "list_all P a" "list_all P b" "list_all P c"
    unfolding email_shape_def by blast
  have a: "a \<in> lang (some (Class P))" using abc by (simp add: lang_some_class)
  have b: "b \<in> lang (some (Class P))" using abc by (simp add: lang_some_class)
  have c: "c \<in> lang (some (Class P))" using abc by (simp add: lang_some_class)
  have at: "''@'' \<in> lang (lit CHR ''@'')" by (simp add: lang_lit)
  have dot: "''.'' \<in> lang (lit CHR ''.'')" by (simp add: lang_lit)
  have "a @ ''@'' @ b @ ''.'' @ c \<in> lang (Then (some (Class P)) (Then (lit CHR ''@'') (Then (some (Class P))
       (Then (lit CHR ''.'') (some (Class P))))))"
    unfolding lang.simps(5)
    by (intro concI a b c at dot)
  with s show "rx_test (Then (some (Class P)) (Then (lit CHR ''@'') (Then (some (Class P))
       (Then (lit CHR ''.'') (some (Class P)))))) s" by (simp add: rx_test_lang)
qed

lemma emailRegex_shape: "rx_test emailRegex s \<longleftrightarrow> email_shape not_space_at s"
  unfolding emailRegex_def by (rule email_rx_shape)

lemma schemaEmailMatch_shape: "rx_test schemaEmailMatch s \<longleftrightarrow> email_shape not_space s"
  unfolding schemaEmailMatch_def by (rule email_rx_shape)

section \<open>Trimming and the validators\<close>

lemma length_trim_le: "length (trim s) \<le> length s"
proof -
  have "length (dropWhile js_whitespace (rev (dropWhile js_whitespace s)))
      \<le> length (rev (dropWhile js_whitespace s))" by (rule length_dropWhile_le)
  also have "\<dots> \<le> length s" by (simp add: length_dropWhile_le)
  finally show ?thesis by (simp add: trim_def)
qed

lemma dropWhile_all: "list_all P s \<Longrightarrow> dropWhile P s = []"
  by (induction s) simp_all

lemma trim_all_space: "list_all js_whitespace s \<Longrightarrow> trim s = []"
  by (simp add: trim_def dropWhile_all)

lemma isValidName_iff: "isValidName (JStr s) \<longleftrightarrow> trim s \<noteq> [] \<and> length s \<le> 100"
  by simp

section \<open>Queries\<close>

lemma find_first_None: "find_first P xs = None \<longleftrightarrow> \<not> list_ex P xs"
  by (induction xs) auto

lemma find_first_Some:
  "find_first P xs = Some (i, x) \<Longrightarrow> i < length xs \<and> xs ! i = x \<and> P x"
proof (induction xs arbitrary: i)
  case Nil
  then show ?case by simp
next
  case (Cons a xs)
  show ?case
  proof (cases "P a")
    case True
    with Cons.prems show ?thesis by simp
  next
    case False
    with Cons.prems obtain j where j: "find_first P xs = Some (j, x)" "i = Suc j"
      by (auto split: prod.splits)
    from Cons.IH[OF j(1)] j(2) show ?thesis by simp
  qed
qed

lemma find_first_unique:
  "distinct (map f xs) \<Longrightarrow> i < length xs \<Longrightarrow> find_first (\<lambda>u. f u = f (xs ! i)) xs = Some (i, xs ! i)"
proof (induction xs arbitrary: i)
  case Nil
  then show ?case by simp
next
  case (Cons a xs)
  show ?case
  proof (cases i)
    case 0
    then show ?thesis by simp
  next
    case (Suc j)
    with Cons.prems have j: "j < length xs" and d: "distinct (map f xs)" and "f a \<notin> f ` set xs"
      by simp_all
    then have "f a \<noteq> f (xs ! j)" by (metis imageI nth_mem)
    with Cons.IH[OF d j] Suc show ?thesis by simp
  qed
qed

section \<open>What a valid update body looks like\<close>

lemma last_dropWhile_nonempty:
  "dropWhile P ys \<noteq> [] \<Longrightarrow> last (dropWhile P ys) = last ys"
proof -
  assume n: "dropWhile P ys \<noteq> []"
  have "last (takeWhile P ys @ dropWhile P ys) = last (dropWhile P ys)"
    using n by (rule last_appendR)
  then show ?thesis by simp
qed

lemma trim_idem: "trim (trim s) = trim s"
proof -
  let ?P = js_whitespace
  define t where "t = dropWhile ?P s"
  define r where "r = dropWhile ?P (rev t)"
  have ts: "trim s = rev r" by (simp add: trim_def t_def r_def)
  have t0: "t = [] \<or> \<not> ?P (hd t)" unfolding t_def by (metis hd_dropWhile)
  have "dropWhile ?P (rev r) = rev r"
  proof (cases "r = []")
    case True
    then show ?thesis by simp
  next
    case False
    then have "last r = last (rev t)" unfolding r_def by (rule last_dropWhile_nonempty)
    moreover from False have "t \<noteq> []" unfolding r_def by auto
    ultimately have "\<not> ?P (last r)" using t0 by (simp add: last_rev)
    with False have "\<not> ?P (hd (rev r))" by (simp add: hd_rev)
    then show ?thesis by (simp add: dropWhile_eq_self_iff)
  qed
  moreover have "dropWhile ?P r = r" unfolding r_def by (rule dropWhile_idem)
  ultimately have "trim (rev r) = rev r" by (simp add: trim_def)
  with ts show ?thesis by simp
qed

lemma not_email_literals:
  "\<not> rx_test emailRegex ''undefined''" "\<not> rx_test emailRegex ''null''"
  "\<not> rx_test emailRegex ''true''" "\<not> rx_test emailRegex ''false''" "\<not> rx_test emailRegex []"
  by code_simp+

lemma isValidEmail_cases:
  "isValidEmail v \<Longrightarrow> (\<exists>s. v = JStr s \<and> s \<noteq> []) \<or> (\<exists>s. v = JObj s)"
  by (cases v) (auto simp: not_email_literals split: if_splits)

lemma isValidAge_cases: "isValidAge v \<Longrightarrow> \<exists>r. v = JNum r \<and> 1 \<le> r \<and> r \<le> 149"
proof (cases v)
  case (JNum r)
  assume "isValidAge v"
  with JNum have "isValidAge (JNum r)" by simp
  then have i: "of_int \<lfloor>r\<rfloor> = r" and p: "0 < r" and q: "r < 150"
    unfolding isValidAge.simps by blast+
  define n where "n = \<lfloor>r\<rfloor>"
  have r: "r = of_int n" unfolding n_def by (rule i[symmetric])
  from p have "0 < n" unfolding r by simp
  then have "1 \<le> n" by simp
  then have 1: "1 \<le> r" unfolding r by simp
  from q have "n < 150" unfolding r by simp
  then have "n \<le> 149" by simp
  then have "r \<le> 149" unfolding r by simp
  with 1 JNum show ?thesis by simp
qed simp_all

lemma isValidName_cases:
  "isValidName v \<Longrightarrow> \<exists>n. v = JStr n \<and> n \<noteq> [] \<and> trim n \<noteq> [] \<and> length n \<le> 100"
  by (cases v) (auto simp: trim_def)

lemma validateUser_update_Valid:
  assumes "validateUser body True = Valid"
  shows "body ''name'' = JUndefined \<or> isValidName (body ''name'')"
    and "body ''email'' = JUndefined \<or> isValidEmail (body ''email'')"
    and "body ''age'' = JUndefined \<or> isValidAge (body ''age'')"
  using assms unfolding validateUser_def by (auto split: if_splits)

lemma update_fields_shape:
  assumes "validateUser body True = Valid"
  shows "body ''name'' = JUndefined \<or> (\<exists>n. body ''name'' = JStr n \<and> n \<noteq> [])"
    and "body ''email'' = JUndefined \<or> (\<exists>s. body ''email'' = JStr s \<and> s \<noteq> []) \<or>
         (\<exists>s. body ''email'' = JObj s)"
    and "body ''age'' = JUndefined \<or> (\<exists>r. body ''age'' = JNum r \<and> r \<noteq> 0)"
proof -
  from validateUser_update_Valid(1)[OF assms] isValidName_cases
  show "body ''name'' = JUndefined \<or> (\<exists>n. body ''name'' = JStr n \<and> n \<noteq> [])" by blast
  from validateUser_update_Valid(2)[OF assms] isValidEmail_cases
  show "body ''email'' = JUndefined \<or> (\<exists>s. body ''email'' = JStr s \<and> s \<noteq> []) \<or>
         (\<exists>s. body ''email'' = JObj s)" by blast
  from validateUser_update_Valid(3)[OF assms] isValidAge_cases[of "body ''age''"]
  show "body ''age'' = JUndefined \<or> (\<exists>r. body ''age'' = JNum r \<and> r \<noteq> 0)" by auto
qed

section \<open>The update handlers\<close>

lemma put_users_id_tail:
  "put_users_id e ident body d =
     (if \<not> rx_test uuidRegex ident then (reply_error 400 ''Invalid user ID format'', d)
      else
        (case findOne_id ident d of
           (None, d1) \<Rightarrow> (reply_error 404 ''User not found'', d1)
         | (Some (i, u), d1) \<Rightarrow>
             (case validateUser body True of
                Invalid msg \<Rightarrow> (reply_error 400 msg, d1)
              | Valid \<Rightarrow> put_tail e i u body d1)))"
  unfolding put_users_id_def put_tail_def ..

lemma patch_users_id_tail:
  "patch_users_id e ident body d =
     (if \<not> rx_test uuidRegex ident then (reply_error 400 ''Invalid user ID format'', d)
      else
        (case findOne_id ident d of
           (None, d1) \<Rightarrow> (reply_error 404 ''User not found'', d1)
         | (Some (i, u), d1) \<Rightarrow>
             (case validateUser body True of
                Invalid msg \<Rightarrow> (reply_error 400 msg, d1)
              | Valid \<Rightarrow> patch_tail e i u body d1)))"
  unfolding patch_users_id_def patch_tail_def ..

lemma set_email_name: "email (set_name t u) = email u"
  by (simp add: set_name_def)

lemma tails_agree:
  assumes "validateUser body True = Valid"
  shows "patch_tail e i u body d1 = put_tail e i u body d1"
proof -
  note sh = update_fields_shape[OF assms]
  note defs = patch_tail_def put_tail_def put_check_email_def put_assign_def
          patch_email_def set_email_name findOne_email_def save_existing_def
  from sh(1) consider (n0) "body ''name'' = JUndefined"
    | (n1) n where "body ''name'' = JStr n" "n \<noteq> []" by blast
  then show ?thesis
  proof cases
    case n0
    from sh(3) consider (a0) "body ''age'' = JUndefined"
      | (a1) r where "body ''age'' = JNum r" "r \<noteq> 0" by blast
    then show ?thesis
    proof cases
      case a0
      from sh(2) consider (e0) "body ''email'' = JUndefined"
        | (e1) s where "body ''email'' = JStr s" "s \<noteq> []"
        | (e2) s where "body ''email'' = JObj s" by blast
      then show ?thesis
      proof cases
        case e0 with n0 a0 show ?thesis by (simp add: defs)
      next
        case e1 with n0 a0 show ?thesis by (simp add: defs split: option.splits)
      next
        case e2 with n0 a0 show ?thesis by (simp add: defs)
      qed
    next
      case a1
      from sh(2) consider (e0) "body ''email'' = JUndefined"
        | (e1) s where "body ''email'' = JStr s" "s \<noteq> []"
        | (e2) s where "body ''email'' = JObj s" by blast
      then show ?thesis
      proof cases
        case e0 with n0 a1 show ?thesis by (simp add: defs)
      next
        case e1 with n0 a1 show ?thesis by (simp add: defs split: option.splits)
      next
        case e2 with n0 a1 show ?thesis by (simp add: defs)
      qed
    qed
  next
    case n1
    from sh(3) consider (a0) "body ''age'' = JUndefined"
      | (a1) r where "body ''age'' = JNum r" "r \<noteq> 0" by blast
    then show ?thesis
    proof cases
      case a0
      from sh(2) consider (e0) "body ''email'' = JUndefined"
        | (e1) s where "body ''email'' = JStr s" "s \<noteq> []"
        | (e2) s where "body ''email'' = JObj s" by blast
      then show ?thesis
      proof cases
        case e0 with n1 a0 show ?thesis by (simp add: defs)
      next
        case e1 with n1 a0 show ?thesis by (simp add: defs split: option.splits)
      next
        case e2 with n1 a0 show ?thesis by (simp add: defs)
      qed
    next
      case a1
      from sh(2) consider (e0) "body ''email'' = JUndefined"
        | (e1) s where "body ''email'' = JStr s" "s \<noteq> []"
        | (e2) s where "body ''email'' = JObj s" by blast
      then show ?thesis
      proof cases
        case e0 with n1 a1 show ?thesis by (simp add: defs)
      next
        case e1 with n1 a1 show ?thesis by (simp add: defs split: option.splits)
      next
        case e2 with n1 a1 show ?thesis by (simp add: defs)
      qed
    qed
  qed
qed

lemma patch_put_eq: "patch_users_id e ident body d = put_users_id e ident body d"
proof (cases "validateUser body True")
  case Valid
  then have "patch_tail e i u body d1 = put_tail e i u body d1" for i u d1
    by (rule tails_agree)
  with Valid show ?thesis
    unfolding patch_users_id_tail put_users_id_tail
    by (simp split: prod.splits option.splits)
next
  case (Invalid msg)
  then show ?thesis
    unfolding patch_users_id_tail put_users_id_tail
    by (simp split: prod.splits option.splits)
qed

lemma docs_record_access: "docs (record_access a d) = docs d"
  by (simp add: record_access_def)

lemma accessed_record_access: "accessed (record_access a d) = accessed d @ [a]"
  by (simp add: record_access_def)

lemma save_existing_True:
  "save_existing i u' d = (True, d3) \<Longrightarrow>
     schema_valid u' \<and> d3 = record_access (Update i) (d\<lparr>docs := (docs d)[i := u']\<rparr>) \<and>
     (email u' = email (docs d ! i) \<or> \<not> list_ex (\<lambda>x. email x = email u') (docs d))"
  unfolding save_existing_def by (auto split: if_splits)

lemma save_existing_False:
  "save_existing i u' d = (False, d3) \<Longrightarrow> docs d3 = docs d"
  unfolding save_existing_def by (auto split: if_splits simp: docs_record_access)

lemma save_existing_succeeds:
  "schema_valid u' \<Longrightarrow> email u' = email (docs d ! i) \<Longrightarrow>
     save_existing i u' d = (True, record_access (Update i) (d\<lparr>docs := (docs d)[i := u']\<rparr>))"
  unfolding save_existing_def by simp

lemma put_check_email_outcome:
  assumes "put_check_email em u d1 = (ro, d2)"
    and "em = JUndefined \<or> (\<exists>s. em = JStr s \<and> s \<noteq> []) \<or> (\<exists>s. em = JObj s)"
  shows "docs d2 = docs d1"
    and "ro = Some r \<Longrightarrow> status r \<noteq> 200"
    and "ro = None \<Longrightarrow> em = JUndefined \<or>
           (\<exists>s. em = JStr s \<and> (toLowerCase s = email u \<or>
                 \<not> list_ex (\<lambda>x. email x = toLowerCase s) (docs d1)))"
proof -
  from assms(2) consider (e0) "em = JUndefined"
    | (e1) s where "em = JStr s" "s \<noteq> []"
    | (e2) s where "em = JObj s" by blast
  then have "docs d2 = docs d1 \<and> (ro = Some r \<longrightarrow> status r \<noteq> 200) \<and>
     (ro = None \<longrightarrow> em = JUndefined \<or>
           (\<exists>s. em = JStr s \<and> (toLowerCase s = email u \<or>
                 \<not> list_ex (\<lambda>x. email x = toLowerCase s) (docs d1))))"
  proof cases
    case e0
    with assms(1) show ?thesis by (simp add: put_check_email_def)
  next
    case e1
    show ?thesis
    proof (cases "toLowerCase s = email u")
      case True
      with e1 assms(1) show ?thesis by (simp add: put_check_email_def)
    next
      case False
      show ?thesis
      proof (cases "find_first (\<lambda>x. email x = toLowerCase s) (docs d1)")
        case None
        then have "\<not> list_ex (\<lambda>x. email x = toLowerCase s) (docs d1)"
          by (simp add: find_first_None)
        with None False e1 assms(1) show ?thesis
          by (auto simp: put_check_email_def findOne_email_def docs_record_access)
      next
        case (Some a)
        with False e1 assms(1) show ?thesis
          by (auto simp: put_check_email_def findOne_email_def docs_record_access
              reply_error_def)
      qed
    qed
  next
    case e2
    with assms(1) show ?thesis
      by (auto simp: put_check_email_def internal_error_def reply_error_def)
  qed
  then show "docs d2 = docs d1"
    and "ro = Some r \<Longrightarrow> status r \<noteq> 200"
    and "ro = None \<Longrightarrow> em = JUndefined \<or>
           (\<exists>s. em = JStr s \<and> (toLowerCase s = email u \<or>
                 \<not> list_ex (\<lambda>x. email x = toLowerCase s) (docs d1)))"
    by blast+
qed

lemma put_assign_applied:
  assumes "validateUser body True = Valid" and "put_assign e body u = Some u'"
  shows "all_applied e body u u'"
proof -
  note sh = update_fields_shape[OF assms(1)]
  from sh(1) consider (n0) "body ''name'' = JUndefined"
    | (n1) n where "body ''name'' = JStr n" "n \<noteq> []" by blast
  then show ?thesis
  proof cases
    case n0
    from sh(3) consider (a0) "body ''age'' = JUndefined"
      | (a1) r where "body ''age'' = JNum r" "r \<noteq> 0" by blast
    then show ?thesis
    proof cases
      case a0
      from sh(2) consider (e0) "body ''email'' = JUndefined"
        | (e1) s where "body ''email'' = JStr s" "s \<noteq> []"
        | (e2) s where "body ''email'' = JObj s" by blast
      then show ?thesis
      proof cases
        case e0 with n0 a0 assms(2) show ?thesis
          by (auto simp: put_assign_def all_applied_def)
      next
        case e1 with n0 a0 assms(2) show ?thesis
          by (auto simp: put_assign_def all_applied_def set_email_def toLowerCase_idem)
      next
        case e2 with n0 a0 assms(2) show ?thesis
          by (auto simp: put_assign_def all_applied_def)
      qed
    next
      case a1
      from sh(2) consider (e0) "body ''email'' = JUndefined"
        | (e1) s where "body ''email'' = JStr s" "s \<noteq> []"
        | (e2) s where "body ''email'' = JObj s" by blast
      then show ?thesis
      proof cases
        case e0 with n0 a1 assms(2) show ?thesis
          by (auto simp: put_assign_def all_applied_def)
      next
        case e1 with n0 a1 assms(2) show ?thesis
          by (auto simp: put_assign_def all_applied_def set_email_def toLowerCase_idem)
      next
        case e2 with n0 a1 assms(2) show ?thesis
          by (auto simp: put_assign_def all_applied_def)
      qed
    qed
  next
    case n1
    from sh(3) consider (a0) "body ''age'' = JUndefined"
      | (a1) r where "body ''age'' = JNum r" "r \<noteq> 0" by blast
    then show ?thesis
    proof cases
      case a0
      from sh(2) consider (e0) "body ''email'' = JUndefined"
        | (e1) s where "body ''email'' = JStr s" "s \<noteq> []"
        | (e2) s where "body ''email'' = JObj s" by blast
      then show ?thesis
      proof cases
        case e0 with n1 a0 assms(2) show ?thesis
          by (auto simp: put_assign_def all_applied_def set_name_def trim_idem)
      next
        case e1 with n1 a0 assms(2) show ?thesis
          by (auto simp: put_assign_def all_applied_def set_name_def trim_idem
              set_email_def toLowerCase_idem)
      next
        case e2 with n1 a0 assms(2) show ?thesis
          by (auto simp: put_assign_def all_applied_def)
      qed
    next
      case a1
      from sh(2) consider (e0) "body ''email'' = JUndefined"
        | (e1) s where "body ''email'' = JStr s" "s \<noteq> []"
        | (e2) s where "body ''email'' = JObj s" by blast
      then show ?thesis
      proof cases
        case e0 with n1 a1 assms(2) show ?thesis
          by (auto simp: put_assign_def all_applied_def set_name_def trim_idem)
      next
        case e1 with n1 a1 assms(2) show ?thesis
          by (auto simp: put_assign_def all_applied_def set_name_def trim_idem
              set_email_def toLowerCase_idem)
      next
        case e2 with n1 a1 assms(2) show ?thesis
          by (auto simp: put_assign_def all_applied_def)
      qed
    qed
  qed
qed

lemma put_tail_outcome:
  assumes v: "validateUser body True = Valid"
  shows "(docs (snd (put_tail e i u body d1)) = docs d1 \<and>
          status (fst (put_tail e i u body d1)) \<noteq> 200) \<or>
         (\<exists>u'. put_tail e i u body d1 =
                 (reply_ok 200 ''User updated successfully'' (Some (One u')) None,
                  record_access (Update i)
                    (snd (put_check_email (body ''email'') u d1)\<lparr>docs := (docs d1)[i := u']\<rparr>)) \<and>
               all_applied e body u u' \<and> schema_valid u' \<and>
               (email u' = email (docs d1 ! i) \<or>
                \<not> list_ex (\<lambda>x. email x = email u') (docs d1)))"
proof -
  obtain ro d2 where c: "put_check_email (body ''email'') u d1 = (ro, d2)"
    by (cases "put_check_email (body ''email'') u d1")
  note co = put_check_email_outcome[OF c update_fields_shape(2)[OF v]]
  show ?thesis
  proof (cases ro)
    case (Some r)
    with c co(1) co(2)[of r] show ?thesis by (simp add: put_tail_def)
  next
    case None
    show ?thesis
    proof (cases "put_assign e body u")
      case a: None
      with c None co(1) show ?thesis
        by (simp add: put_tail_def internal_error_def reply_error_def)
    next
      case a: (Some u')
      obtain ok d3 where sv: "save_existing i u' d2 = (ok, d3)"
        by (cases "save_existing i u' d2")
      show ?thesis
      proof (cases ok)
        case False
        with sv save_existing_False[of i u' d2 d3] c None a co(1) show ?thesis
          by (simp add: put_tail_def internal_error_def reply_error_def)
      next
        case True
        with sv have t: "save_existing i u' d2 = (True, d3)" by simp
        note st = save_existing_True[OF t]
        have "put_tail e i u body d1 =
            (reply_ok 200 ''User updated successfully'' (Some (One u')) None, d3)"
          using c None a t by (simp add: put_tail_def)
        moreover have "d3 = record_access (Update i)
                    (snd (put_check_email (body ''email'') u d1)\<lparr>docs := (docs d1)[i := u']\<rparr>)"
          using st c co(1) by simp
        moreover have "all_applied e body u u'" using v a by (rule put_assign_applied)
        moreover have "schema_valid u'" using st by simp
        moreover have "email u' = email (docs d1 ! i) \<or>
                \<not> list_ex (\<lambda>x. email x = email u') (docs d1)"
          using st co(1) by simp
        ultimately show ?thesis by blast
      qed
    qed
  qed
qed

section \<open>The create handler\<close>

lemma save_new_True:
  "save_new u d = (True, d2) \<Longrightarrow>
     schema_valid u \<and> d2 = record_access Insert (d\<lparr>docs := docs d @ [u]\<rparr>) \<and>
     \<not> list_ex (\<lambda>x. id' x = id' u \<or> email x = email u) (docs d)"
  unfolding save_new_def by (auto split: if_splits)

lemma save_new_False: "save_new u d = (False, d2) \<Longrightarrow> docs d2 = docs d"
  unfolding save_new_def by (auto split: if_splits simp: docs_record_access)

lemma status_reply_error: "status (reply_error c m) = c"
  by (simp add: reply_error_def)

lemma status_reply_ok: "status (reply_ok c m p n) = c"
  by (simp add: reply_ok_def)

lemma status_internal_error: "status internal_error = 500"
  by (simp add: internal_error_def reply_error_def)

lemma new_user_props:
  "new_user e body lowered = Some u \<Longrightarrow>
     id' u = uuidv4 (rnds e) \<and> email u = toLowerCase lowered \<and>
     createdAt u = now e \<and> updatedAt u = now e \<and>
     call_trim (body ''name'') = Some (trim (name u)) \<and> body ''age'' = JNum (age u)"
  unfolding new_user_def
  by (cases "body ''name''"; cases "body ''age''")
    (auto simp: set_email_def set_name_def trim_idem)

lemma post_users_cases:
  "post_users e body d =
     (case validateUser body False of
        Invalid msg \<Rightarrow> (reply_error 400 msg, d)
      | Valid \<Rightarrow>
          (case call_toLowerCase (body ''email'') of
             None \<Rightarrow> (internal_error, d)
           | Some lowered \<Rightarrow>
               (case findOne_email lowered d of
                  (Some existingUser, d1) \<Rightarrow> (reply_error 400 ''Email already exists'', d1)
                | (None, d1) \<Rightarrow>
                    (case new_user e body lowered of
                       None \<Rightarrow> (internal_error, d1)
                     | Some newUser \<Rightarrow>
                         (case save_new newUser d1 of
                            (False, d2) \<Rightarrow> (internal_error, d2)
                          | (True, d2) \<Rightarrow>
                              (reply_ok 201 ''User created successfully''
                                 (Some (One newUser)) None, d2))))))"
  unfolding post_users_def new_user_def ..

lemma post_users_outcome:
  "(docs (snd (post_users e body d)) = docs d \<and> status (fst (post_users e body d)) \<noteq> 201) \<or>
   (\<exists>u em. post_users e body d =
        (reply_ok 201 ''User created successfully'' (Some (One u)) None,
         record_access Insert
           (record_access (FindOne_email (toLowerCase em)) d\<lparr>docs := docs d @ [u]\<rparr>)) \<and>
      body ''email'' = JStr em \<and> email u = toLowerCase em \<and> id' u = uuidv4 (rnds e) \<and>
      schema_valid u \<and> \<not> list_ex (\<lambda>x. id' x = id' u \<or> email x = email u) (docs d))"
proof (cases "validateUser body False")
  case (Invalid msg)
  then show ?thesis by (simp add: post_users_cases status_reply_error)
next
  case Valid
  show ?thesis
  proof (cases "body ''email''")
    case (JStr em)
    show ?thesis
    proof (cases "find_first (\<lambda>x. email x = toLowerCase em) (docs d)")
      case (Some a)
      with Valid JStr show ?thesis
        by (simp add: post_users_cases findOne_email_def status_reply_error docs_record_access)
    next
      case None
      show ?thesis
      proof (cases "new_user e body (toLowerCase em)")
        case n: None
        with Valid JStr None show ?thesis
          by (simp add: post_users_cases findOne_email_def status_internal_error
              docs_record_access)
      next
        case n: (Some u)
        note np = new_user_props[OF n]
        obtain ok d2 where sv:
          "save_new u (record_access (FindOne_email (toLowerCase em)) d) = (ok, d2)"
          by (cases "save_new u (record_access (FindOne_email (toLowerCase em)) d)")
        show ?thesis
        proof (cases ok)
          case False
          with sv save_new_False[of u _ d2] Valid JStr None n show ?thesis
            by (simp add: post_users_cases findOne_email_def status_internal_error
                docs_record_access)
        next
          case True
          with sv have t:
            "save_new u (record_access (FindOne_email (toLowerCase em)) d) = (True, d2)"
            by simp
          note st = save_new_True[OF t]
          have "post_users e body d =
              (reply_ok 201 ''User created successfully'' (Some (One u)) None, d2)"
            using Valid JStr None n t by (simp add: post_users_cases findOne_email_def)
          moreover have "d2 = record_access Insert
             (record_access (FindOne_email (toLowerCase em)) d\<lparr>docs := docs d @ [u]\<rparr>)"
            using st by (simp add: docs_record_access)
          moreover have "email u = toLowerCase em" using np by (simp add: toLowerCase_idem)
          moreover have "\<not> list_ex (\<lambda>x. id' x = id' u \<or> email x = email u) (docs d)"
            using st by (simp add: docs_record_access)
          ultimately show ?thesis using JStr np st by blast
        qed
      qed
    qed
  qed (simp_all add: post_users_cases Valid status_internal_error)
qed

section \<open>The invariant of the store\<close>

lemma store_inv_docs_eq: "docs d' = docs d \<Longrightarrow> store_inv d \<Longrightarrow> store_inv d'"
  by (simp add: store_inv_def)

lemma store_inv_empty: "store_inv empty_db"
  by (simp add: store_inv_def empty_db_def)

lemma put_users_id_outcome:
  "(docs (snd (put_users_id e ident body d)) = docs d \<and>
    status (fst (put_users_id e ident body d)) \<noteq> 200) \<or>
   (\<exists>i u u'. rx_test uuidRegex ident \<and>
      find_first (\<lambda>x. id' x = ident) (docs d) = Some (i, u) \<and>
      validateUser body True = Valid \<and>
      put_users_id e ident body d =
        (reply_ok 200 ''User updated successfully'' (Some (One u')) None,
         record_access (Update i)
           (snd (put_check_email (body ''email'') u (record_access (FindOne_id ident) d))
              \<lparr>docs := (docs d)[i := u']\<rparr>)) \<and>
      all_applied e body u u' \<and> schema_valid u' \<and>
      (email u' = email u \<or> \<not> list_ex (\<lambda>x. email x = email u') (docs d)))"
proof (cases "rx_test uuidRegex ident")
  case False
  then show ?thesis by (simp add: put_users_id_tail status_reply_error)
next
  case True
  show ?thesis
  proof (cases "find_first (\<lambda>x. id' x = ident) (docs d)")
    case None
    with True show ?thesis
      by (simp add: put_users_id_tail findOne_id_def status_reply_error docs_record_access)
  next
    case (Some p)
    obtain i u where p: "p = (i, u)" by (cases p)
    from Some p have f: "find_first (\<lambda>x. id' x = ident) (docs d) = Some (i, u)" by simp
    from find_first_Some[OF f] have iu: "docs d ! i = u" by simp
    show ?thesis
    proof (cases "validateUser body True")
      case (Invalid msg)
      with True f show ?thesis
        by (simp add: put_users_id_tail findOne_id_def status_reply_error docs_record_access)
    next
      case Valid
      let ?d1 = "record_access (FindOne_id ident) d"
      have eq: "put_users_id e ident body d = put_tail e i u body ?d1"
        using True f Valid by (simp add: put_users_id_tail findOne_id_def)
      from put_tail_outcome[OF Valid, of e i u ?d1] show ?thesis
      proof
        assume "docs (snd (put_tail e i u body ?d1)) = docs ?d1 \<and>
          status (fst (put_tail e i u body ?d1)) \<noteq> 200"
        with eq show ?thesis by (simp add: docs_record_access)
      next
        assume "\<exists>u'. put_tail e i u body ?d1 =
                 (reply_ok 200 ''User updated successfully'' (Some (One u')) None,
                  record_access (Update i)
                    (snd (put_check_email (body ''email'') u ?d1)\<lparr>docs := (docs ?d1)[i := u']\<rparr>)) \<and>
               all_applied e body u u' \<and> schema_valid u' \<and>
               (email u' = email (docs ?d1 ! i) \<or>
                \<not> list_ex (\<lambda>x. email x = email u') (docs ?d1))"
        then obtain u' where u': "put_tail e i u body ?d1 =
                 (reply_ok 200 ''User updated successfully'' (Some (One u')) None,
                  record_access (Update i)
                    (snd (put_check_email (body ''email'') u ?d1)\<lparr>docs := (docs ?d1)[i := u']\<rparr>))"
            "all_applied e body u u'" "schema_valid u'"
            "email u' = email (docs ?d1 ! i) \<or>
                \<not> list_ex (\<lambda>x. email x = email u') (docs ?d1)" by blast
        from u'(1) eq have "put_users_id e ident body d =
           (reply_ok 200 ''User updated successfully'' (Some (One u')) None,
            record_access (Update i)
              (snd (put_check_email (body ''email'') u ?d1)\<lparr>docs := (docs d)[i := u']\<rparr>))"
          by (simp add: docs_record_access)
        moreover from u'(4) iu have
          "email u' = email u \<or> \<not> list_ex (\<lambda>x. email x = email u') (docs d)"
          by (simp add: docs_record_access)
        ultimately show ?thesis using True f Valid u'(2,3) by blast
      qed
    qed
  qed
qed

lemma all_applied_stored:
  assumes "all_applied e body u u'" and "validateUser body True = Valid"
  shows "id' u' = id' u" and "email u' = email u \<or> toLowerCase (email u') = email u'"
proof -
  from assms(1) show "id' u' = id' u" by (simp add: all_applied_def)
  show "email u' = email u \<or> toLowerCase (email u') = email u'"
  proof (cases "body ''email'' = JUndefined")
    case True
    with assms(1) show ?thesis by (simp add: all_applied_def)
  next
    case False
    with assms(1) have "call_toLowerCase (body ''email'') = Some (email u')"
      by (simp add: all_applied_def)
    then have "\<exists>s. toLowerCase s = email u'"
      by (cases "body ''email''") auto
    then obtain s where "toLowerCase s = email u'" ..
    then have "toLowerCase (email u') = email u'"
      using toLowerCase_idem[of s] by simp
    then show ?thesis ..
  qed
qed

lemma map_update_same: "(map f xs)[i := f (xs ! i)] = map f xs"
  by (simp flip: map_update)

lemma store_inv_update:
  assumes inv: "store_inv d" and i: "i < length (docs d)"
    and id: "id' u' = id' (docs d ! i)"
    and em: "email u' = email (docs d ! i) \<or> \<not> list_ex (\<lambda>x. email x = email u') (docs d)"
    and ok: "stored_ok u'"
    and d': "docs d' = (docs d)[i := u']"
  shows "store_inv d'"
proof -
  have 1: "map id' (docs d') = map id' (docs d)"
  proof -
    have "map id' (docs d') = (map id' (docs d))[i := id' (docs d ! i)]"
      using id d' by (simp add: map_update)
    then show ?thesis by (simp only: map_update_same)
  qed
  have 2: "distinct (map email (docs d'))"
  proof -
    have m: "map email (docs d') = (map email (docs d))[i := email u']"
      using d' by (simp add: map_update)
    from em show ?thesis
    proof
      assume "email u' = email (docs d ! i)"
      with m have "map email (docs d') = (map email (docs d))[i := email (docs d ! i)]"
        by simp
      then have "map email (docs d') = map email (docs d)" by (simp only: map_update_same)
      with inv show ?thesis by (simp add: store_inv_def)
    next
      assume "\<not> list_ex (\<lambda>x. email x = email u') (docs d)"
      then have "email u' \<notin> set (map email (docs d))" by (auto simp: list_ex_iff)
      with inv m show ?thesis by (simp add: store_inv_def distinct_list_update)
    qed
  qed
  have 3: "list_all stored_ok (docs d')"
  proof -
    have "set (docs d') \<subseteq> insert u' (set (docs d))"
      unfolding d' by (rule set_update_subset_insert)
    with inv ok show ?thesis by (auto simp: store_inv_def list_all_iff)
  qed
  from 1 2 3 inv show ?thesis by (simp add: store_inv_def)
qed

lemma store_inv_put: "store_inv d \<Longrightarrow> store_inv (snd (put_users_id e ident body d))"
proof -
  assume inv: "store_inv d"
  from put_users_id_outcome[of e ident body d] show ?thesis
  proof
    assume "docs (snd (put_users_id e ident body d)) = docs d \<and>
      status (fst (put_users_id e ident body d)) \<noteq> 200"
    with inv show ?thesis by (simp add: store_inv_docs_eq)
  next
    assume "\<exists>i u u'. rx_test uuidRegex ident \<and>
      find_first (\<lambda>x. id' x = ident) (docs d) = Some (i, u) \<and>
      validateUser body True = Valid \<and>
      put_users_id e ident body d =
        (reply_ok 200 ''User updated successfully'' (Some (One u')) None,
         record_access (Update i)
           (snd (put_check_email (body ''email'') u (record_access (FindOne_id ident) d))
              \<lparr>docs := (docs d)[i := u']\<rparr>)) \<and>
      all_applied e body u u' \<and> schema_valid u' \<and>
      (email u' = email u \<or> \<not> list_ex (\<lambda>x. email x = email u') (docs d))"
    then obtain i u u' where h: "find_first (\<lambda>x. id' x = ident) (docs d) = Some (i, u)"
      "validateUser body True = Valid"
      "put_users_id e ident body d =
        (reply_ok 200 ''User updated successfully'' (Some (One u')) None,
         record_access (Update i)
           (snd (put_check_email (body ''email'') u (record_access (FindOne_id ident) d))
              \<lparr>docs := (docs d)[i := u']\<rparr>))"
      "all_applied e body u u'" "schema_valid u'"
      "email u' = email u \<or> \<not> list_ex (\<lambda>x. email x = email u') (docs d)" by blast
    from find_first_Some[OF h(1)] have i: "i < length (docs d)" and iu: "docs d ! i = u"
      by simp_all
    from i iu inv have su: "stored_ok u" by (auto simp: store_inv_def list_all_iff)
    note ap = all_applied_stored[OF h(4) h(2)]
    have ok: "stored_ok u'"
      using ap su h(5) by (auto simp: stored_ok_def)
    have d': "docs (snd (put_users_id e ident body d)) = (docs d)[i := u']"
      using h(3) by (simp add: docs_record_access)
    show ?thesis
      using inv i _ _ ok d'
    proof (rule store_inv_update)
      show "id' u' = id' (docs d ! i)" using ap(1) iu by simp
      show "email u' = email (docs d ! i) \<or> \<not> list_ex (\<lambda>x. email x = email u') (docs d)"
        using h(6) iu by simp
    qed
  qed
qed

lemma store_inv_post: "store_inv d \<Longrightarrow> store_inv (snd (post_users e body d))"
proof -
  assume inv: "store_inv d"
  from post_users_outcome[of e body d] show ?thesis
  proof
    assume "docs (snd (post_users e body d)) = docs d \<and>
      status (fst (post_users e body d)) \<noteq> 201"
    with inv show ?thesis by (simp add: store_inv_docs_eq)
  next
    assume "\<exists>u em. post_users e body d =
        (reply_ok 201 ''User created successfully'' (Some (One u)) None,
         record_access Insert
           (record_access (FindOne_email (toLowerCase em)) d\<lparr>docs := docs d @ [u]\<rparr>)) \<and>
      body ''email'' = JStr em \<and> email u = toLowerCase em \<and> id' u = uuidv4 (rnds e) \<and>
      schema_valid u \<and> \<not> list_ex (\<lambda>x. id' x = id' u \<or> email x = email u) (docs d)"
    then obtain u em where h: "post_users e body d =
        (reply_ok 201 ''User created successfully'' (Some (One u)) None,
         record_access Insert
           (record_access (FindOne_email (toLowerCase em)) d\<lparr>docs := docs d @ [u]\<rparr>))"
      "email u = toLowerCase em" "id' u = uuidv4 (rnds e)" "schema_valid u"
      "\<not> list_ex (\<lambda>x. id' x = id' u \<or> email x = email u) (docs d)" by blast
    have d': "docs (snd (post_users e body d)) = docs d @ [u]"
      using h(1) by (simp add: docs_record_access)
    have ok: "stored_ok u"
      using h(2,3,4) by (simp add: stored_ok_def toLowerCase_idem uuidv4_matches)
    from h(5) have "id' u \<notin> set (map id' (docs d))" "email u \<notin> set (map email (docs d))"
      by (auto simp: list_ex_iff)
    with inv ok d' show ?thesis by (simp add: store_inv_def)
  qed
qed

lemma delete_users_id_docs:
  "docs (snd (delete_users_id ident d)) = docs d \<or>
   (\<exists>i. i < length (docs d) \<and>
     docs (snd (delete_users_id ident d)) = take i (docs d) @ drop (Suc i) (docs d))"
proof (cases "rx_test uuidRegex ident")
  case False
  then show ?thesis by (simp add: delete_users_id_def)
next
  case True
  show ?thesis
  proof (cases "find_first (\<lambda>x. id' x = ident) (docs d)")
    case None
    with True show ?thesis
      by (simp add: delete_users_id_def findOneAndDelete_id_def docs_record_access)
  next
    case (Some p)
    obtain i u where p: "p = (i, u)" by (cases p)
    from Some p have f: "find_first (\<lambda>x. id' x = ident) (docs d) = Some (i, u)" by simp
    from find_first_Some[OF f] have "i < length (docs d)" by simp
    moreover from True f have
      "docs (snd (delete_users_id ident d)) = take i (docs d) @ drop (Suc i) (docs d)"
      by (simp add: delete_users_id_def findOneAndDelete_id_def docs_record_access)
    ultimately show ?thesis by blast
  qed
qed

lemma distinct_append_tl: "distinct (A @ B) \<Longrightarrow> distinct (A @ tl B)"
  by (cases B) auto

lemma distinct_map_remove_nth:
  assumes "distinct (map f xs)"
  shows "distinct (map f (take i xs @ drop (Suc i) xs))"
proof -
  have "map f xs = map f (take i xs) @ map f (drop i xs)"
    by (simp flip: map_append)
  with assms have "distinct (map f (take i xs) @ map f (drop i xs))" by simp
  then have "distinct (map f (take i xs) @ tl (map f (drop i xs)))"
    by (rule distinct_append_tl)
  moreover have "tl (map f (drop i xs)) = map f (drop (Suc i) xs)"
    by (metis drop_Suc map_tl tl_drop)
  ultimately show ?thesis by simp
qed

lemma store_inv_delete: "store_inv d \<Longrightarrow> store_inv (snd (delete_users_id ident d))"
proof -
  assume inv: "store_inv d"
  from delete_users_id_docs[of ident d] show ?thesis
  proof
    assume "docs (snd (delete_users_id ident d)) = docs d"
    with inv show ?thesis by (simp add: store_inv_docs_eq)
  next
    assume "\<exists>i. i < length (docs d) \<and>
       docs (snd (delete_users_id ident d)) = take i (docs d) @ drop (Suc i) (docs d)"
    then obtain i where
      d': "docs (snd (delete_users_id ident d)) = take i (docs d) @ drop (Suc i) (docs d)"
      by blast
    have "set (take i (docs d) @ drop (Suc i) (docs d)) \<subseteq> set (docs d)"
      using set_take_subset[of i "docs d"] set_drop_subset[of "Suc i" "docs d"] by auto
    with inv have "list_all stored_ok (take i (docs d) @ drop (Suc i) (docs d))"
      unfolding store_inv_def list_all_iff by blast
    with inv d' show ?thesis
      by (simp add: store_inv_def distinct_map_remove_nth del: map_append)
  qed
qed

lemma store_inv_handle: "store_inv d \<Longrightarrow> store_inv (snd (handle e r d))"
proof (cases r)
  case (Create body)
  assume "store_inv d"
  with Create show ?thesis by (simp add: store_inv_post)
next
  case ListAll
  assume "store_inv d"
  with ListAll show ?thesis
    by (simp add: get_users_def find_all_def store_inv_def docs_record_access)
next
  case (GetById ident)
  assume "store_inv d"
  then have "store_inv (snd (get_users_id ident d))"
    by (auto simp: get_users_id_def findOne_id_def store_inv_def docs_record_access
        split: option.splits)
  with GetById show ?thesis by simp
next
  case (ReplaceById ident body)
  assume "store_inv d"
  with ReplaceById show ?thesis by (simp add: store_inv_put)
next
  case (PatchById ident body)
  assume "store_inv d"
  with PatchById show ?thesis by (simp add: store_inv_put patch_put_eq)
next
  case (DeleteById ident)
  assume "store_inv d"
  with DeleteById show ?thesis by (simp add: store_inv_delete)
qed

lemma store_inv_run: "store_inv d \<Longrightarrow> store_inv (run reqs d)"
proof (induction reqs arbitrary: d)
  case Nil
  then show ?case by simp
next
  case (Cons a reqs)
  obtain e r where a: "a = (e, r)" by (cases a)
  from Cons.prems have "store_inv (snd (handle e r d))" by (rule store_inv_handle)
  then have "store_inv (run reqs (snd (handle e r d)))" by (rule Cons.IH)
  with a show ?case by simp
qed

section \<open>The example requests, evaluated\<close>

lemma john_valid: "validateUser john False = Valid"
  by code_simp

lemma john_again_valid: "validateUser john_again False = Valid"
  by code_simp

lemma john_email: "john ''email'' = JStr ''John@Example.com''"
  by code_simp

lemma john_again_email: "john_again ''email'' = JStr ''JOHN@EXAMPLE.COM''"
  by code_simp

lemma john_lower: "toLowerCase ''JOHN@EXAMPLE.COM'' = toLowerCase ''John@Example.com''"
  by code_simp

lemma john_created:
  "post_users env0 john empty_db =
     (reply_ok 201 ''User created successfully'' (Some (One john_stored)) None,
      \<lparr>docs = [john_stored], accessed = [FindOne_email ''john@example.com'', Insert]\<rparr>)"
  by code_simp

lemma short_id_no_match: "\<not> rx_test uuidRegex ''42''"
  by code_simp

lemma run_two_users: "run [(env0, Create john), (env1, Create jane)] empty_db = two_users"
  by code_simp

lemma john_id: "id' john_stored = uuidv4 (rnds env0)"
  by code_simp

lemma john_id_matches: "rx_test uuidRegex (id' john_stored)"
  unfolding john_id by (rule uuidv4_matches)

lemma find_john:
  "find_first (\<lambda>x. id' x = id' john_stored) (docs two_users) = Some (0, john_stored)"
  by code_simp

lemma take_janes_email_valid: "validateUser take_janes_email True = Valid"
  by code_simp

lemma keep_own_email_valid: "validateUser keep_own_email True = Valid"
  by code_simp

section \<open>Updates that keep the address\<close>

lemma schema_valid_applied:
  assumes sv: "schema_valid u" and ap: "all_applied e body u u'"
    and v: "validateUser body True = Valid" and em: "email u' = email u"
  shows "schema_valid u'"
proof -
  from ap have id: "id' u' = id' u" by (simp add: all_applied_def)
  have nm: "name u' \<noteq> [] \<and> length (name u') \<le> 100"
  proof (cases "body ''name'' = JUndefined")
    case True
    with ap have "name u' = name u" by (simp add: all_applied_def)
    with sv show ?thesis by (simp add: schema_valid_def)
  next
    case False
    with validateUser_update_Valid(1)[OF v] have "isValidName (body ''name'')" by simp
    then obtain n where n: "body ''name'' = JStr n" "trim n \<noteq> []" "length n \<le> 100"
      using isValidName_cases by blast
    from False ap have "call_trim (body ''name'') = Some (name u')"
      by (simp add: all_applied_def)
    with n(1) have "name u' = trim n" by simp
    with n(2,3) length_trim_le[of n] show ?thesis by simp
  qed
  have ag: "1 \<le> age u' \<and> age u' \<le> 149"
  proof (cases "body ''age'' = JUndefined")
    case True
    with ap have "age u' = age u" by (simp add: all_applied_def)
    with sv show ?thesis by (simp add: schema_valid_def)
  next
    case False
    with validateUser_update_Valid(3)[OF v] have "isValidAge (body ''age'')" by simp
    then obtain r where r: "body ''age'' = JNum r" "1 \<le> r" "r \<le> 149"
      using isValidAge_cases by blast
    from False ap have "body ''age'' = JNum (age u')" by (simp add: all_applied_def)
    with r show ?thesis by simp
  qed
  from nm have "1 \<le> length (name u')" by (cases "name u'") simp_all
  with sv id nm ag em show ?thesis by (simp add: schema_valid_def)
qed

lemma put_assign_Some:
  assumes v: "validateUser body True = Valid" and em: "body ''email'' = JStr s"
  shows "\<exists>u'. put_assign e body u = Some u'"
proof -
  note sh = update_fields_shape[OF v]
  from sh(1) consider (n0) "body ''name'' = JUndefined"
    | (n1) n where "body ''name'' = JStr n" "n \<noteq> []" by blast
  then show ?thesis
  proof cases
    case n0
    from sh(3) consider (a0) "body ''age'' = JUndefined"
      | (a1) r where "body ''age'' = JNum r" "r \<noteq> 0" by blast
    then show ?thesis
    proof cases
      case a0 with n0 em show ?thesis by (simp add: put_assign_def)
    next
      case a1 with n0 em show ?thesis by (simp add: put_assign_def)
    qed
  next
    case n1
    from sh(3) consider (a0) "body ''age'' = JUndefined"
      | (a1) r where "body ''age'' = JNum r" "r \<noteq> 0" by blast
    then show ?thesis
    proof cases
      case a0 with n1 em show ?thesis by (simp add: put_assign_def)
    next
      case a1 with n1 em show ?thesis by (simp add: put_assign_def)
    qed
  qed
qed

lemma put_same_email:
  assumes inv: "store_inv d"
    and f: "find_first (\<lambda>x. id' x = ident) (docs d) = Some (i, u)"
    and v: "validateUser body True = Valid"
    and em: "body ''email'' = JStr em"
    and same: "toLowerCase em = email u"
  shows "\<exists>u'. put_users_id e ident body d =
           (reply_ok 200 ''User updated successfully'' (Some (One u')) None,
            record_access (Update i)
              (record_access (FindOne_id ident) d\<lparr>docs := (docs d)[i := u']\<rparr>)) \<and>
           all_applied e body u u'"
proof -
  let ?d1 = "record_access (FindOne_id ident) d"
  from find_first_Some[OF f] have i: "i < length (docs d)" and iu: "docs d ! i = u"
    and idu: "id' u = ident" by simp_all
  from i iu inv have su: "stored_ok u" by (auto simp: store_inv_def list_all_iff)
  then have m: "rx_test uuidRegex ident" and svu: "schema_valid u"
    using idu by (simp_all add: stored_ok_def)
  have eq: "put_users_id e ident body d = put_tail e i u body ?d1"
    using m f v by (simp add: put_users_id_tail findOne_id_def)
  from update_fields_shape(2)[OF v] em have ne: "em \<noteq> []" by simp
  have c: "put_check_email (body ''email'') u ?d1 = (None, ?d1)"
    using em ne same by (simp add: put_check_email_def)
  from put_assign_Some[OF v em] obtain u' where a: "put_assign e body u = Some u'" by blast
  have ap: "all_applied e body u u'" using v a by (rule put_assign_applied)
  with em have "call_toLowerCase (JStr em) = Some (email u')" by (simp add: all_applied_def)
  with same have eu: "email u' = email u" by simp
  have sv: "schema_valid u'" using svu ap v eu by (rule schema_valid_applied)
  have "email u' = email (docs ?d1 ! i)" using eu iu by (simp add: docs_record_access)
  with sv have s: "save_existing i u' ?d1 =
      (True, record_access (Update i) (?d1\<lparr>docs := (docs ?d1)[i := u']\<rparr>))"
    by (rule save_existing_succeeds)
  have "put_tail e i u body ?d1 =
      (reply_ok 200 ''User updated successfully'' (Some (One u')) None,
       record_access (Update i) (?d1\<lparr>docs := (docs d)[i := u']\<rparr>))"
    using c a s by (simp add: put_tail_def docs_record_access)
  with eq ap show ?thesis by auto
qed

lemma take_janes_email_fields:
  "take_janes_email ''name'' = JStr ''Johnny'' \<and>
   take_janes_email ''email'' = JStr ''JANE@example.com'' \<and>
   toLowerCase ''JANE@example.com'' \<noteq> email john_stored \<and>
   list_ex (\<lambda>x. email x = toLowerCase ''JANE@example.com'') (docs two_users)"
  by code_simp

section \<open>The claims\<close>

text \<open>
  C1. Whatever the store holds, when the input passes validation in creating mode and
  some stored record has the lower-cased input address as its address, the create handler
  answers 400 \<open>Email already exists\<close> and hands the store back with its documents
  untouched: the one query by address is the only access. In particular, after a create
  that answered 201, a create whose address equals the first one's up to letter case gets
  that answer, whatever its name and age.
\<close>

theorem create_duplicate_email_conflict:
  assumes "validateUser body False = Valid" and "body ''email'' = JStr em"
  shows "(list_ex (\<lambda>u. email u = toLowerCase em) (docs d) \<longrightarrow>
            post_users e body d =
              (reply_error 400 ''Email already exists'',
               record_access (FindOne_email (toLowerCase em)) d)) \<and>
         (status (fst (post_users e_earlier earlier d)) = 201 \<and>
            earlier ''email'' = JStr em_earlier \<and>
            toLowerCase em_earlier = toLowerCase em \<longrightarrow>
            post_users e body (snd (post_users e_earlier earlier d)) =
              (reply_error 400 ''Email already exists'',
               record_access (FindOne_email (toLowerCase em))
                 (snd (post_users e_earlier earlier d))))"
proof -
  have dup: "post_users e body d' =
      (reply_error 400 ''Email already exists'',
       record_access (FindOne_email (toLowerCase em)) d')"
    if "list_ex (\<lambda>u. email u = toLowerCase em) (docs d')" for d'
  proof -
    from that have "find_first (\<lambda>u. email u = toLowerCase em) (docs d') \<noteq> None"
      by (simp add: find_first_None)
    then obtain p where "find_first (\<lambda>u. email u = toLowerCase em) (docs d') = Some p"
      by blast
    with assms show ?thesis
      by (simp add: post_users_cases findOne_email_def)
  qed
  have second:
    "list_ex (\<lambda>u. email u = toLowerCase em) (docs (snd (post_users e_earlier earlier d)))"
    if h: "status (fst (post_users e_earlier earlier d)) = 201"
      "earlier ''email'' = JStr em_earlier"
      "toLowerCase em_earlier = toLowerCase em"
  proof -
    from post_users_outcome[of e_earlier earlier d] h(1)
    obtain u em' where o: "post_users e_earlier earlier d =
        (reply_ok 201 ''User created successfully'' (Some (One u)) None,
         record_access Insert
           (record_access (FindOne_email (toLowerCase em')) d\<lparr>docs := docs d @ [u]\<rparr>))"
      "earlier ''email'' = JStr em'" "email u = toLowerCase em'"
      by blast
    from o(2) h(2) have "em' = em_earlier" by simp
    with o(3) h(3) have "email u = toLowerCase em" by simp
    with o(1) show ?thesis by (simp add: docs_record_access)
  qed
  from dup second show ?thesis by blast
qed

text \<open>John is created; a second request with his address in capitals is refused.\<close>

theorem create_duplicate_email_conflict_witness:
  "validateUser john_again False = Valid \<and>
   john_again ''email'' = JStr ''JOHN@EXAMPLE.COM'' \<and>
   status (fst (post_users env0 john empty_db)) = 201 \<and>
   list_ex (\<lambda>u. email u = toLowerCase ''JOHN@EXAMPLE.COM'')
     (docs (snd (post_users env0 john empty_db))) \<and>
   post_users env1 john_again (snd (post_users env0 john empty_db)) =
     (reply_error 400 ''Email already exists'',
      record_access (FindOne_email (toLowerCase ''JOHN@EXAMPLE.COM''))
        (snd (post_users env0 john empty_db)))"
proof -
  have s: "status (fst (post_users env0 john empty_db)) = 201"
    by (simp add: john_created status_reply_ok)
  have l: "list_ex (\<lambda>u. email u = toLowerCase ''JOHN@EXAMPLE.COM'')
     (docs (snd (post_users env0 john empty_db)))"
    unfolding john_created john_lower by code_simp
  from create_duplicate_email_conflict[OF john_again_valid john_again_email,
      where d = empty_db and e = env1 and e_earlier = env0 and earlier = john
        and em_earlier = "''John@Example.com''"]
    s l john_email john_lower john_again_valid john_again_email
  show ?thesis by simp
qed

text \<open>
  C2. From the empty store, after any sequence of create, list, get, replace, patch and
  delete requests, whatever the clock and the random bytes of each, no two stored records
  share an id and no two share a lower-cased address.
\<close>

theorem run_keeps_id_and_email_unique:
  "distinct (map id' (docs (run reqs empty_db))) \<and>
   distinct (map (\<lambda>u. toLowerCase (email u)) (docs (run reqs empty_db)))"
proof -
  have inv: "store_inv (run reqs empty_db)"
    using store_inv_empty by (rule store_inv_run)
  then have eq: "map (\<lambda>u. toLowerCase (email u)) (docs (run reqs empty_db)) =
      map email (docs (run reqs empty_db))"
    by (simp add: store_inv_def stored_ok_def list_all_iff)
  show ?thesis unfolding eq using inv by (simp add: store_inv_def)
qed

text \<open>Two creates leave two records, distinct in id and address.\<close>

theorem run_keeps_id_and_email_unique_witness:
  "length (docs (run [(env0, Create john), (env1, Create jane)] empty_db)) = 2 \<and>
   distinct (map id' (docs (run [(env0, Create john), (env1, Create jane)] empty_db))) \<and>
   distinct (map (\<lambda>u. toLowerCase (email u))
     (docs (run [(env0, Create john), (env1, Create jane)] empty_db)))"
proof -
  have "length (docs (run [(env0, Create john), (env1, Create jane)] empty_db)) = 2"
    unfolding run_two_users by (simp add: two_users_def)
  with run_keeps_id_and_email_unique[of "[(env0, Create john), (env1, Create jane)]"]
  show ?thesis by simp
qed

text \<open>
  C3. For every identifier, request body, store and surroundings, the patch handler and
  the replace handler return the same response and the same store (documents and
  recorded accesses alike).
\<close>

theorem patch_behaves_as_put:
  "patch_users_id e ident body d = put_users_id e ident body d"
  by (rule patch_put_eq)

text \<open>The two handlers agree on an update that collides with another record.\<close>

theorem patch_behaves_as_put_witness:
  "patch_users_id env1 (id' john_stored) take_janes_email two_users =
   put_users_id env1 (id' john_stored) take_janes_email two_users"
  by (rule patch_behaves_as_put)

text \<open>
  C4. When the identifier finds a record, replace and patch each either leave every
  document as it was, answering other than 200, or answer 200 and store in its place a
  record to which every supplied field and the refreshed \<^verbatim>\<open>updatedAt\<close> are applied.
  In particular, when patch meets another record's address after the name has been
  assigned to the in-memory document, it answers 400 \<open>Email already exists\<close> and only
  the two queries have reached the store.
\<close>

theorem update_all_or_nothing:
  assumes "find_first (\<lambda>x. id' x = ident) (docs d) = Some (i, u)"
  shows "((docs (snd (put_users_id e ident body d)) = docs d \<and>
           status (fst (put_users_id e ident body d)) \<noteq> 200) \<or>
          (\<exists>u'. status (fst (put_users_id e ident body d)) = 200 \<and>
                all_applied e body u u' \<and>
                docs (snd (put_users_id e ident body d)) = (docs d)[i := u'])) \<and>
         ((docs (snd (patch_users_id e ident body d)) = docs d \<and>
           status (fst (patch_users_id e ident body d)) \<noteq> 200) \<or>
          (\<exists>u'. status (fst (patch_users_id e ident body d)) = 200 \<and>
                all_applied e body u u' \<and>
                docs (snd (patch_users_id e ident body d)) = (docs d)[i := u'])) \<and>
         (rx_test uuidRegex ident \<and> validateUser body True = Valid \<and>
          body ''name'' = JStr n \<and> body ''email'' = JStr em \<and>
          toLowerCase em \<noteq> email u \<and>
          list_ex (\<lambda>x. email x = toLowerCase em) (docs d) \<longrightarrow>
            patch_users_id e ident body d =
              (reply_error 400 ''Email already exists'',
               record_access (FindOne_email (toLowerCase em))
                 (record_access (FindOne_id ident) d)))"
proof -
  have put: "(docs (snd (put_users_id e ident body d)) = docs d \<and>
           status (fst (put_users_id e ident body d)) \<noteq> 200) \<or>
          (\<exists>u'. status (fst (put_users_id e ident body d)) = 200 \<and>
                all_applied e body u u' \<and>
                docs (snd (put_users_id e ident body d)) = (docs d)[i := u'])"
    using put_users_id_outcome[of e ident body d]
  proof
    assume "docs (snd (put_users_id e ident body d)) = docs d \<and>
      status (fst (put_users_id e ident body d)) \<noteq> 200"
    then show ?thesis ..
  next
    assume "\<exists>i u u'. rx_test uuidRegex ident \<and>
      find_first (\<lambda>x. id' x = ident) (docs d) = Some (i, u) \<and>
      validateUser body True = Valid \<and>
      put_users_id e ident body d =
        (reply_ok 200 ''User updated successfully'' (Some (One u')) None,
         record_access (Update i)
           (snd (put_check_email (body ''email'') u (record_access (FindOne_id ident) d))
              \<lparr>docs := (docs d)[i := u']\<rparr>)) \<and>
      all_applied e body u u' \<and> schema_valid u' \<and>
      (email u' = email u \<or> \<not> list_ex (\<lambda>x. email x = email u') (docs d))"
    then obtain j w u' where h:
      "find_first (\<lambda>x. id' x = ident) (docs d) = Some (j, w)"
      "put_users_id e ident body d =
        (reply_ok 200 ''User updated successfully'' (Some (One u')) None,
         record_access (Update j)
           (snd (put_check_email (body ''email'') w (record_access (FindOne_id ident) d))
              \<lparr>docs := (docs d)[j := u']\<rparr>))"
      "all_applied e body w u'" by blast
    from h(1) assms have "j = i" "w = u" by simp_all
    with h(2,3) have "status (fst (put_users_id e ident body d)) = 200 \<and>
                all_applied e body u u' \<and>
                docs (snd (put_users_id e ident body d)) = (docs d)[i := u']"
      by (simp add: status_reply_ok docs_record_access)
    then show ?thesis by blast
  qed
  have conflict: "patch_users_id e ident body d =
              (reply_error 400 ''Email already exists'',
               record_access (FindOne_email (toLowerCase em))
                 (record_access (FindOne_id ident) d))"
    if c: "rx_test uuidRegex ident" "validateUser body True = Valid"
          "body ''name'' = JStr n" "body ''email'' = JStr em"
          "toLowerCase em \<noteq> email u"
          "list_ex (\<lambda>x. email x = toLowerCase em) (docs d)"
  proof -
    from c(6) have "find_first (\<lambda>x. email x = toLowerCase em) (docs d) \<noteq> None"
      by (simp add: find_first_None)
    then obtain p where p: "find_first (\<lambda>x. email x = toLowerCase em) (docs d) = Some p"
      by blast
    have "patch_tail e i u body (record_access (FindOne_id ident) d) =
              (reply_error 400 ''Email already exists'',
               record_access (FindOne_email (toLowerCase em))
                 (record_access (FindOne_id ident) d))"
      using c(3,4,5) p
      by (simp add: patch_tail_def patch_email_def set_email_name findOne_email_def
          docs_record_access)
    with c(1,2) assms show ?thesis
      by (simp add: patch_users_id_tail findOne_id_def)
  qed
  from put conflict show ?thesis unfolding patch_put_eq by blast
qed

text \<open>John asks for a new name and Jane's address: nothing is stored.\<close>

theorem update_all_or_nothing_witness:
  "find_first (\<lambda>x. id' x = id' john_stored) (docs two_users) = Some (0, john_stored) \<and>
   rx_test uuidRegex (id' john_stored) \<and> validateUser take_janes_email True = Valid \<and>
   take_janes_email ''name'' = JStr ''Johnny'' \<and>
   take_janes_email ''email'' = JStr ''JANE@example.com'' \<and>
   toLowerCase ''JANE@example.com'' \<noteq> email john_stored \<and>
   list_ex (\<lambda>x. email x = toLowerCase ''JANE@example.com'') (docs two_users) \<and>
   patch_users_id env1 (id' john_stored) take_janes_email two_users =
     (reply_error 400 ''Email already exists'',
      record_access (FindOne_email (toLowerCase ''JANE@example.com''))
        (record_access (FindOne_id (id' john_stored)) two_users)) \<and>
   docs (snd (patch_users_id env1 (id' john_stored) take_janes_email two_users)) =
     docs two_users"
proof -
  from update_all_or_nothing[OF find_john, of env1 take_janes_email "''Johnny''"
      "''JANE@example.com''"]
    find_john john_id_matches take_janes_email_valid take_janes_email_fields
  have "patch_users_id env1 (id' john_stored) take_janes_email two_users =
     (reply_error 400 ''Email already exists'',
      record_access (FindOne_email (toLowerCase ''JANE@example.com''))
        (record_access (FindOne_id (id' john_stored)) two_users))" by blast
  with find_john john_id_matches take_janes_email_valid take_janes_email_fields
  show ?thesis by (simp add: docs_record_access)
qed

text \<open>
  C5. An identifier that does not have the grouped layout of eight, four, four, four and
  twelve hex digits separated by dashes gets 400 \<open>Invalid user ID format\<close> from get,
  replace, patch and delete, and the store is returned as it was, with no access
  recorded.
\<close>

theorem malformed_identifier_rejected:
  assumes "\<not> grouped_hex_layout ident"
  shows "get_users_id ident d = (reply_error 400 ''Invalid user ID format'', d) \<and>
         put_users_id e ident body d = (reply_error 400 ''Invalid user ID format'', d) \<and>
         patch_users_id e ident body d = (reply_error 400 ''Invalid user ID format'', d) \<and>
         delete_users_id ident d = (reply_error 400 ''Invalid user ID format'', d)"
proof -
  from assms have "\<not> rx_test uuidRegex ident" by (simp add: uuidRegex_layout)
  then show ?thesis
    by (simp add: get_users_id_def put_users_id_def patch_users_id_def delete_users_id_def)
qed

text \<open>The identifier \<open>42\<close> is refused by all four handlers.\<close>

theorem malformed_identifier_rejected_witness:
  "\<not> grouped_hex_layout ''42'' \<and>
   get_users_id ''42'' empty_db = (reply_error 400 ''Invalid user ID format'', empty_db) \<and>
   put_users_id env0 ''42'' john empty_db =
     (reply_error 400 ''Invalid user ID format'', empty_db) \<and>
   patch_users_id env0 ''42'' john empty_db =
     (reply_error 400 ''Invalid user ID format'', empty_db) \<and>
   delete_users_id ''42'' empty_db = (reply_error 400 ''Invalid user ID format'', empty_db)"
proof -
  have n: "\<not> grouped_hex_layout ''42''"
    using short_id_no_match by (simp add: uuidRegex_layout)
  from malformed_identifier_rejected[OF n, of empty_db env0 john] n show ?thesis by simp
qed

text \<open>
  C6. The claim is that a name is accepted exactly when, after trimming, it is non-empty
  and at most 100 characters long. The validator measures the untrimmed string against
  the limit: a name of one space followed by 100 letters is rejected, although trimmed
  it is non-empty and exactly 100 characters long.
\<close>

theorem isValidName_padded:
  "isValidName (JStr (CHR '' '' # replicate 100 CHR ''a'')) = False \<and>
   trim (CHR '' '' # replicate 100 CHR ''a'') \<noteq> [] \<and>
   length (trim (CHR '' '' # replicate 100 CHR ''a'')) = 100"
proof -
  have a: "\<not> js_whitespace CHR ''a''" by (simp add: js_whitespace_def)
  have s: "js_whitespace CHR '' ''" by (simp add: js_whitespace_def)
  have "dropWhile js_whitespace (replicate 100 CHR ''a'') = replicate 100 CHR ''a''"
    using a by (simp add: dropWhile_eq_self_iff)
  then have "trim (CHR '' '' # replicate 100 CHR ''a'') = replicate 100 CHR ''a''"
    using s by (simp add: trim_def)
  then show ?thesis by simp
qed

text \<open>
  C7 (amended). The validator accepts a string exactly when it is one or more characters
  that are neither whitespace nor \<open>@\<close>, then \<open>@\<close>, then one or more such characters,
  then a dot, then one or more such characters.
\<close>

theorem isValidEmail_shape:
  "isValidEmail (JStr s) \<longleftrightarrow> email_shape (\<lambda>x. \<not> js_whitespace x \<and> x \<noteq> CHR ''@'') s"
  using emailRegex_shape[of s] unfolding not_space_at_def by simp

text \<open>An address the validator accepts.\<close>

theorem isValidEmail_shape_witness:
  "isValidEmail (JStr ''John@Example.com'') \<and> 
   email_shape (\<lambda>x. \<not> js_whitespace x \<and> x \<noteq> CHR ''@'') ''John@Example.com''"
proof -
  have "isValidEmail (JStr ''John@Example.com'')" by code_simp
  with isValidEmail_shape[of "''John@Example.com''"] show ?thesis by simp
qed

text \<open>
  C7 as stated fails: \<open>a@@b.c\<close> is non-whitespace, \<open>@\<close>, non-whitespace, dot,
  non-whitespace, and the validator rejects it.
\<close>

theorem isValidEmail_not_spec_pattern:
  "\<not> (isValidEmail (JStr ''a@@b.c'') \<longleftrightarrow> email_shape (\<lambda>x. \<not> js_whitespace x) ''a@@b.c'')"
proof -
  have 1: "\<not> isValidEmail (JStr ''a@@b.c'')" by code_simp
  have "''a@@b.c'' = ''a'' @ ''@'' @ ''@b'' @ ''.'' @ ''c'' \<and> ''a'' \<noteq> [] \<and> ''@b'' \<noteq> [] \<and> ''c'' \<noteq> [] \<and>
      list_all (\<lambda>x. \<not> js_whitespace x) ''a'' \<and> list_all (\<lambda>x. \<not> js_whitespace x) ''@b'' \<and>
      list_all (\<lambda>x. \<not> js_whitespace x) ''c''"
    by (simp add: js_whitespace_def)
  then have 2: "email_shape (\<lambda>x. \<not> js_whitespace x) ''a@@b.c''"
    unfolding email_shape_def by blast
  from 1 2 show ?thesis by simp
qed

text \<open>
  C8. After any sequence of requests, when the identifier finds a record, the body is
  valid and its address, lower-cased, is the record's own, replace and patch answer 200
  and reach the store twice only, to find the record and to save it: no query by address
  is made.
\<close>

theorem update_with_own_email_succeeds:
  assumes "find_first (\<lambda>x. id' x = ident) (docs (run reqs empty_db)) = Some (i, u)"
    and "validateUser body True = Valid"
    and "body ''email'' = JStr em"
    and "toLowerCase em = email u"
  shows "status (fst (put_users_id e ident body (run reqs empty_db))) = 200 \<and>
         accessed (snd (put_users_id e ident body (run reqs empty_db))) =
           accessed (run reqs empty_db) @ [FindOne_id ident, Update i] \<and>
         status (fst (patch_users_id e ident body (run reqs empty_db))) = 200 \<and>
         accessed (snd (patch_users_id e ident body (run reqs empty_db))) =
           accessed (run reqs empty_db) @ [FindOne_id ident, Update i]"
proof -
  have inv: "store_inv (run reqs empty_db)"
    using store_inv_empty by (rule store_inv_run)
  from put_same_email[OF inv assms, of e] obtain u' where
    "put_users_id e ident body (run reqs empty_db) =
           (reply_ok 200 ''User updated successfully'' (Some (One u')) None,
            record_access (Update i)
              (record_access (FindOne_id ident) (run reqs empty_db)
                 \<lparr>docs := (docs (run reqs empty_db))[i := u']\<rparr>))" by blast
  then show ?thesis
    by (simp add: patch_put_eq status_reply_ok record_access_def)
qed

text \<open>John sends his own address in capitals, with a new name.\<close>

theorem update_with_own_email_succeeds_witness:
  "find_first (\<lambda>x. id' x = id' john_stored)
     (docs (run [(env0, Create john), (env1, Create jane)] empty_db)) = Some (0, john_stored) \<and>
   validateUser keep_own_email True = Valid \<and>
   keep_own_email ''email'' = JStr ''JOHN@example.com'' \<and>
   toLowerCase ''JOHN@example.com'' = email john_stored \<and>
   status (fst (put_users_id env1 (id' john_stored) keep_own_email
     (run [(env0, Create john), (env1, Create jane)] empty_db))) = 200 \<and>
   status (fst (patch_users_id env1 (id' john_stored) keep_own_email
     (run [(env0, Create john), (env1, Create jane)] empty_db))) = 200 \<and>
   accessed (snd (patch_users_id env1 (id' john_stored) keep_own_email
     (run [(env0, Create john), (env1, Create jane)] empty_db))) =
     accessed (run [(env0, Create john), (env1, Create jane)] empty_db) @
       [FindOne_id (id' john_stored), Update 0]"
proof -
  have f: "find_first (\<lambda>x. id' x = id' john_stored)
     (docs (run [(env0, Create john), (env1, Create jane)] empty_db)) = Some (0, john_stored)"
    unfolding run_two_users by (rule find_john)
  have b: "keep_own_email ''email'' = JStr ''JOHN@example.com''" by code_simp
  have l: "toLowerCase ''JOHN@example.com'' = email john_stored" by code_simp
  from update_with_own_email_succeeds[OF f keep_own_email_valid b l, of env1]
    f keep_own_email_valid b l
  show ?thesis by simp
qed

text \<open>
  C9. After any sequence of requests, a patch with no fields on the id of a stored
  record \<open>r\<close> answers 200, and the record stored in its place is \<open>r\<close> with
  \<^verbatim>\<open>updatedAt\<close> set to the time of the request: id, name, address, age and
  \<^verbatim>\<open>createdAt\<close> are those of \<open>r\<close>, and no other document changes.
\<close>

theorem patch_nothing_refreshes_updatedAt:
  assumes "r \<in> set (docs (run reqs empty_db))"
  shows "\<exists>i. i < length (docs (run reqs empty_db)) \<and> docs (run reqs empty_db) ! i = r \<and>
           patch_users_id e (id' r) (\<lambda>k. JUndefined) (run reqs empty_db) =
             (reply_ok 200 ''User updated successfully''
                (Some (One (r\<lparr>updatedAt := now e\<rparr>))) None,
              record_access (Update i)
                (record_access (FindOne_id (id' r)) (run reqs empty_db)
                   \<lparr>docs := (docs (run reqs empty_db))[i := r\<lparr>updatedAt := now e\<rparr>]\<rparr>))"
proof -
  let ?d = "run reqs empty_db"
  let ?d1 = "record_access (FindOne_id (id' r)) ?d"
  let ?body = "\<lambda>k::string. JUndefined"
  have inv: "store_inv ?d" using store_inv_empty by (rule store_inv_run)
  from assms obtain i where i: "i < length (docs ?d)" "docs ?d ! i = r"
    by (auto simp: in_set_conv_nth)
  from inv have "distinct (map id' (docs ?d))" by (simp add: store_inv_def)
  from find_first_unique[OF this i(1)] i(2)
  have f: "find_first (\<lambda>x. id' x = id' r) (docs ?d) = Some (i, r)" by simp
  from inv assms have "stored_ok r" by (auto simp: store_inv_def list_all_iff)
  then have m: "rx_test uuidRegex (id' r)" and sv: "schema_valid r"
    by (simp_all add: stored_ok_def)
  have v: "validateUser ?body True = Valid" by (simp add: validateUser_def)
  have eq: "patch_users_id e (id' r) ?body ?d = put_tail e i r ?body ?d1"
    using m f v by (simp add: patch_put_eq put_users_id_tail findOne_id_def)
  have sv': "schema_valid (r\<lparr>updatedAt := now e\<rparr>)" using sv by (simp add: schema_valid_def)
  have "email (r\<lparr>updatedAt := now e\<rparr>) = email (docs ?d1 ! i)"
    using i(2) by (simp add: docs_record_access)
  with sv' have s: "save_existing i (r\<lparr>updatedAt := now e\<rparr>) ?d1 =
      (True, record_access (Update i) (?d1\<lparr>docs := (docs ?d1)[i := r\<lparr>updatedAt := now e\<rparr>]\<rparr>))"
    by (rule save_existing_succeeds)
  have "put_tail e i r ?body ?d1 =
      (reply_ok 200 ''User updated successfully'' (Some (One (r\<lparr>updatedAt := now e\<rparr>))) None,
       record_access (Update i) (?d1\<lparr>docs := (docs ?d)[i := r\<lparr>updatedAt := now e\<rparr>]\<rparr>))"
    using s by (simp add: put_tail_def put_check_email_def put_assign_def docs_record_access)
  with eq i show ?thesis by auto
qed

text \<open>An empty patch of John's record.\<close>

theorem patch_nothing_refreshes_updatedAt_witness:
  "john_stored \<in> set (docs (run [(env0, Create john), (env1, Create jane)] empty_db)) \<and>
   (\<exists>i. i < length (docs (run [(env0, Create john), (env1, Create jane)] empty_db)) \<and>
      docs (run [(env0, Create john), (env1, Create jane)] empty_db) ! i = john_stored \<and>
      patch_users_id env1 (id' john_stored) (\<lambda>k. JUndefined)
          (run [(env0, Create john), (env1, Create jane)] empty_db) =
        (reply_ok 200 ''User updated successfully''
           (Some (One (john_stored\<lparr>updatedAt := now env1\<rparr>))) None,
         record_access (Update i)
           (record_access (FindOne_id (id' john_stored))
              (run [(env0, Create john), (env1, Create jane)] empty_db)
              \<lparr>docs := (docs (run [(env0, Create john), (env1, Create jane)] empty_db))
                 [i := john_stored\<lparr>updatedAt := now env1\<rparr>]\<rparr>)))"
proof -
  have m: "john_stored \<in> set (docs (run [(env0, Create john), (env1, Create jane)] empty_db))"
    unfolding run_two_users by (simp add: two_users_def)
  from patch_nothing_refreshes_updatedAt[OF m, of env1] m show ?thesis by blast
qed

text \<open>
  C10 (amended). In creating mode a supplied but falsy field is reported as missing,
  never by its format or range error. An empty name is always reported as
  \<open>Name is required\<close>. An age of 0 is reported by the missing-field error of the first
  falsy field in the order name, address, age: \<open>Name is required\<close> when the name is
  falsy, else \<open>Email is required\<close> when the address is falsy, else
  \<open>Age is required\<close>.
\<close>

theorem validateUser_falsy_is_missing:
  "(user ''name'' = JStr [] \<longrightarrow> validateUser user False = Invalid ''Name is required'') \<and>
   (user ''age'' = JNum 0 \<and> truthy (user ''name'') \<and> truthy (user ''email'') \<longrightarrow>
      validateUser user False = Invalid ''Age is required'') \<and>
   (user ''age'' = JNum 0 \<longrightarrow>
      validateUser user False =
        (if \<not> truthy (user ''name'') then Invalid ''Name is required''
         else if \<not> truthy (user ''email'') then Invalid ''Email is required''
         else Invalid ''Age is required''))"
  by (simp add: validateUser_def)

text \<open>
  An empty name; an age of 0 beside a name and an address; an age of 0 beside a name
  and no address.
\<close>

theorem validateUser_falsy_is_missing_witness:
  "validateUser (object [(''name'', JStr []), (''email'', JStr ''a@b.c''), (''age'', JNum 7)])
     False = Invalid ''Name is required'' \<and>
   validateUser (object [(''name'', JStr ''Ann''), (''email'', JStr ''a@b.c''), (''age'', JNum 0)])
     False = Invalid ''Age is required'' \<and>
   validateUser (object [(''name'', JStr ''Ann''), (''age'', JNum 0)])
     False = Invalid ''Email is required''"
proof -
  let ?a = "object [(''name'', JStr []), (''email'', JStr ''a@b.c''), (''age'', JNum 7)]"
  let ?b = "object [(''name'', JStr ''Ann''), (''email'', JStr ''a@b.c''), (''age'', JNum 0)]"
  let ?c = "object [(''name'', JStr ''Ann''), (''age'', JNum 0)]"
  have a: "?a ''name'' = JStr []" by simp
  have b: "?b ''age'' = JNum 0 \<and> truthy (?b ''name'') \<and> truthy (?b ''email'')" by simp
  have c: "?c ''age'' = JNum 0" "truthy (?c ''name'')" "\<not> truthy (?c ''email'')"
    by simp_all
  from validateUser_falsy_is_missing[of ?a] a
  have 1: "validateUser ?a False = Invalid ''Name is required''" by blast
  from validateUser_falsy_is_missing[of ?b] b
  have 2: "validateUser ?b False = Invalid ''Age is required''" by blast
  from validateUser_falsy_is_missing[of ?c] c(1)
  have "validateUser ?c False =
        (if \<not> truthy (?c ''name'') then Invalid ''Name is required''
         else if \<not> truthy (?c ''email'') then Invalid ''Email is required''
         else Invalid ''Age is required'')" by blast
  with c(2,3) have 3: "validateUser ?c False = Invalid ''Email is required''"
    by (simp only: if_True if_False not_True_eq_False not_False_eq_True)
  from 1 2 3 show ?thesis by blast
qed

text \<open>
  C10 as stated fails: with an age of 0 and no name, the error is the missing name, not
  the missing age.
\<close>

theorem validateUser_age_zero_without_name:
  "object [(''email'', JStr ''a@b.c''), (''age'', JNum 0)] ''age'' = JNum 0 \<and>
   validateUser (object [(''email'', JStr ''a@b.c''), (''age'', JNum 0)]) False
     \<noteq> Invalid ''Age is required''"
  by (simp add: validateUser_def)

end
